theory Spec2Isabelle
  imports Main "HOL-Library.AList"
begin

section \<open>JavaScript values of the task namespace\<close>

text \<open>
  The engine of \<^verbatim>\<open>task.ts\<close> (\<^verbatim>\<open>validTaskValue\<close>, \<^verbatim>\<open>resolveTask\<close>,
  \<^verbatim>\<open>getFnName\<close>, \<^verbatim>\<open>doneify\<close>, \<^verbatim>\<open>execute\<close>, \<^verbatim>\<open>runTask\<close>) works on
  untyped JavaScript values. A value is modelled by the datatype below. A function value
  carries an identity and its declared parameter count (\<^verbatim>\<open>fn.length\<close>); what it does when
  it is called is given by an environment (section "User functions"). An object is the list
  of its own enumerable properties in insertion order; lookups read the first entry of a key.
  Property lookup sees own data properties only: the properties that an object inherits from
  its prototype (\<^verbatim>\<open>constructor\<close>, \<^verbatim>\<open>toString\<close>, ...) and the properties of functions and
  of primitive values (\<^verbatim>\<open>length\<close>, \<^verbatim>\<open>name\<close>, ...) are outside the model, so a task path is
  taken not to name one of them.
\<close>

type_synonym fid = nat

datatype jsval =
    JUndefined
  | JNull
  | JBool bool
  | JNum int
  | JStr string
  | JFun fid nat
  | JArr "jsval list"
  | JObj "(string \<times> jsval) list"

type_synonym PineFileType = "(string \<times> jsval) list"

text \<open>JavaScript truthiness (\<^verbatim>\<open>if (v)\<close>, \<^verbatim>\<open>v || false\<close>, \<^verbatim>\<open>!v\<close>).\<close>

fun truthy :: "jsval \<Rightarrow> bool" where
  "truthy JUndefined = False"
| "truthy JNull = False"
| "truthy (JBool b) = b"
| "truthy (JNum n) = (n \<noteq> 0)"
| "truthy (JStr s) = (s \<noteq> [])"
| "truthy (JFun f n) = True"
| "truthy (JArr xs) = True"
| "truthy (JObj kvs) = True"

text \<open>The \<^verbatim>\<open>typeof\<close> operator.\<close>

fun typeof :: "jsval \<Rightarrow> string" where
  "typeof JUndefined = ''undefined''"
| "typeof JNull = ''object''"
| "typeof (JBool b) = ''boolean''"
| "typeof (JNum n) = ''number''"
| "typeof (JStr s) = ''string''"
| "typeof (JFun f n) = ''function''"
| "typeof (JArr xs) = ''object''"
| "typeof (JObj kvs) = ''object''"

text \<open>
  Modelled from the spec: \<^verbatim>\<open>isObject\<close> of the package \<^verbatim>\<open>@pinefile/utils\<close> is not among
  the sources. The spec calls the values it accepts mappings ("a non-empty mapping",
  "a non-empty configuration mapping"): it holds of object values and of nothing else.
\<close>

fun isObject :: "jsval \<Rightarrow> bool" where
  "isObject (JObj kvs) = True"
| "isObject v = False"

text \<open>Decimal numerals, for the index keys of an array.\<close>

fun dec :: "nat \<Rightarrow> string" where
  "dec n = (if n < 10 then [char_of (48 + n)] else dec (n div 10) @ [char_of (48 + n mod 10)])"

declare dec.simps [simp del]

definition array_index :: "string \<Rightarrow> nat \<Rightarrow> nat option" where
  "array_index k n = find (\<lambda>i. dec i = k) [0..<n]"

text \<open>Property read \<^verbatim>\<open>v[k]\<close>; an absent property reads as \<^verbatim>\<open>undefined\<close>.\<close>

fun get_prop :: "jsval \<Rightarrow> string \<Rightarrow> jsval" where
  "get_prop (JObj kvs) k = (case map_of kvs k of Some v \<Rightarrow> v | None \<Rightarrow> JUndefined)"
| "get_prop (JArr xs) k =
     (if k = ''length'' then JNum (int (length xs))
      else (case array_index k (length xs) of Some i \<Rightarrow> xs ! i | None \<Rightarrow> JUndefined))"
| "get_prop v k = JUndefined"

text \<open>\<^verbatim>\<open>Object.keys(val)\<close>.\<close>

fun object_keys :: "jsval \<Rightarrow> string list" where
  "object_keys (JObj kvs) = map fst kvs"
| "object_keys (JArr xs) = map dec [0..<length xs]"
| "object_keys v = []"

text \<open>Property write \<^verbatim>\<open>o[k] = v\<close> on an object.\<close>

fun set_prop :: "jsval \<Rightarrow> string \<Rightarrow> jsval \<Rightarrow> jsval" where
  "set_prop (JObj kvs) k v = JObj (AList.update k v kvs)"
| "set_prop w k v = w"

section \<open>Strings: split and join\<close>

text \<open>
  \<^verbatim>\<open>String.prototype.split(sep)\<close> with a string separator: the occurrences of the separator
  are found from the left and do not overlap; an empty separator splits into the characters.
\<close>

function split_aux :: "string \<Rightarrow> string \<Rightarrow> string \<Rightarrow> string list" where
  "split_aux sep acc [] = [rev acc]"
| "split_aux sep acc (c # cs) =
     (if sep \<noteq> [] \<and> take (length sep) (c # cs) = sep
      then rev acc # split_aux sep [] (drop (length sep) (c # cs))
      else split_aux sep (c # acc) cs)"
  by pat_completeness auto
termination
  by (relation "measure (\<lambda>(sep, acc, s). length s)") auto

definition split :: "string \<Rightarrow> string \<Rightarrow> string list" where
  "split s sep = (if sep = [] then map (\<lambda>c. [c]) s else split_aux sep [] s)"

text \<open>\<^verbatim>\<open>Array.prototype.join(sep)\<close> on an array of strings.\<close>

fun join :: "string \<Rightarrow> string list \<Rightarrow> string" where
  "join sep [] = []"
| "join sep [x] = x"
| "join sep (x # y # ys) = x @ sep @ join sep (y # ys)"

section \<open>Task resolution\<close>

text \<open>\<^verbatim>\<open>validTaskValue\<close> (lines 16-23).\<close>

definition validTaskValue :: "jsval \<Rightarrow> bool" where
  "validTaskValue val =
     (typeof val = ''function'' \<or>
      (isObject val \<and> length (object_keys val) \<noteq> 0 \<and>
       (typeof (get_prop val ''_'') = ''undefined'' \<or> typeof (get_prop val ''_'') = ''function'')))"

text \<open>
  One step of the reduction of \<^verbatim>\<open>resolveTask\<close> (lines 40-42):
  \<^verbatim>\<open>(prev, cur) => prev[cur] || false\<close>.
\<close>

definition walk_step :: "jsval \<Rightarrow> string \<Rightarrow> jsval" where
  "walk_step prev cur = (let r = get_prop prev cur in if truthy r then r else JBool False)"

definition walk :: "jsval \<Rightarrow> string list \<Rightarrow> jsval" where
  "walk v properties = foldl walk_step v properties"

text \<open>
  The namespace is modelled as a tree, so the object the walk reaches is the node at the end
  of the path, and the assignment \<^verbatim>\<open>task.default = task.default._\<close> (line 53) is an update of
  that node inside the namespace. \<open>update_path v path f\<close> applies \<open>f\<close> to the node that the
  walk reaches from \<open>v\<close> along \<open>path\<close>. A namespace in which one object is reachable under
  two paths (where the write would show under both) is outside the model.
\<close>

fun update_path :: "jsval \<Rightarrow> string list \<Rightarrow> (jsval \<Rightarrow> jsval) \<Rightarrow> jsval"
  and update_fields :: "(string \<times> jsval) list \<Rightarrow> string \<Rightarrow> string list \<Rightarrow> (jsval \<Rightarrow> jsval) \<Rightarrow> (string \<times> jsval) list"
  and update_elems :: "jsval list \<Rightarrow> nat \<Rightarrow> string list \<Rightarrow> (jsval \<Rightarrow> jsval) \<Rightarrow> jsval list"
where
  "update_path v [] f = f v"
| "update_path (JObj kvs) (k # ks) f = JObj (update_fields kvs k ks f)"
| "update_path (JArr xs) (k # ks) f =
     (case array_index k (length xs) of Some i \<Rightarrow> JArr (update_elems xs i ks f) | None \<Rightarrow> JArr xs)"
| "update_path JUndefined (k # ks) f = JUndefined"
| "update_path JNull (k # ks) f = JNull"
| "update_path (JBool b) (k # ks) f = JBool b"
| "update_path (JNum n) (k # ks) f = JNum n"
| "update_path (JStr s) (k # ks) f = JStr s"
| "update_path (JFun g n) (k # ks) f = JFun g n"
| "update_fields [] k ks f = []"
| "update_fields ((k', v) # kvs) k ks f =
     (if k' = k then (k', update_path v ks f) # kvs else (k', v) # update_fields kvs k ks f)"
| "update_elems [] i ks f = []"
| "update_elems (x # xs) 0 ks f = update_path x ks f # xs"
| "update_elems (x # xs) (Suc i) ks f = x # update_elems xs i ks f"

text \<open>
  Lines 52-54 on the resolved node:
  \<^verbatim>\<open>if (isObject(task.default)) { task.default = task.default._; }\<close>.
\<close>

definition flatten_default :: "jsval \<Rightarrow> jsval" where
  "flatten_default task =
     (if isObject (get_prop task ''default'')
      then set_prop task ''default'' (get_prop (get_prop task ''default'') ''_'')
      else task)"

definition fields_of :: "jsval \<Rightarrow> PineFileType \<Rightarrow> PineFileType" where
  "fields_of v dflt = (case v of JObj kvs \<Rightarrow> kvs | _ \<Rightarrow> dflt)"

text \<open>
  The key of \<^verbatim>\<open>resolveTask\<close>. The parameter is declared a string; line 39 also takes an
  array of segments, and line 35 takes any falsy key (the empty string, \<^verbatim>\<open>undefined\<close>) for
  "not found". An array is truthy, the empty one too.
\<close>

datatype task_key = KeyUndefined | KeyStr string | KeyArr "string list"

fun key_truthy :: "task_key \<Rightarrow> bool" where
  "key_truthy KeyUndefined = False"
| "key_truthy (KeyStr s) = (s \<noteq> [])"
| "key_truthy (KeyArr ps) = True"

text \<open>
  Line 39: \<^verbatim>\<open>Array.isArray(key) ? key : key.split(sep)\<close>. The line is reached with a truthy
  key only.
\<close>

fun key_properties :: "task_key \<Rightarrow> string \<Rightarrow> string list" where
  "key_properties (KeyArr ps) sep = ps"
| "key_properties (KeyStr s) sep = split s sep"
| "key_properties KeyUndefined sep = []"

text \<open>
  \<^verbatim>\<open>resolveTask\<close> (lines 34-57). The result is the returned value together with the
  namespace after the call (line 53 may have written to it).
\<close>

definition resolveTask :: "PineFileType \<Rightarrow> task_key \<Rightarrow> string \<Rightarrow> jsval \<times> PineFileType" where
  "resolveTask obj key sep =
     (if \<not> key_truthy key then (JBool False, obj)
      else
        let properties = key_properties key sep;
            task = walk (JObj obj) properties
        in if \<not> isObject task \<and> \<not> validTaskValue task then (JBool False, obj)
           else if isObject task \<and> truthy (get_prop task ''_'') then (get_prop task ''_'', obj)
           else (flatten_default task,
                 fields_of (update_path (JObj obj) properties flatten_default) obj))"

section \<open>Hook names\<close>

text \<open>
  \<^verbatim>\<open>getFnName\<close> (lines 68-72). \<^verbatim>\<open>names.pop()\<close> of an empty array is \<^verbatim>\<open>undefined\<close>,
  which the template string prints as the word.
\<close>

definition getFnName :: "string \<Rightarrow> string \<Rightarrow> string \<Rightarrow> string" where
  "getFnName name prefix sep =
     (let names = split name sep;
          lastName = (if names = [] then ''undefined'' else last names)
      in join sep (butlast names @ [prefix @ lastName]))"

section \<open>User functions, promises and the log\<close>

text \<open>
  The tasks and runners of a pinefile are user code. The model gives each function value an
  entry in an environment that says how a call completes. A call either returns a value,
  throws, or returns a promise that is fulfilled with a value or rejected with an error.
  A thrown or rejected error is an \<^verbatim>\<open>Error\<close> object with its message, or any other value
  (JavaScript throws any value).

  Asynchrony is modelled by run-to-completion: \<^verbatim>\<open>await p\<close> reads how \<open>p\<close> settles, and the
  events of one execution are recorded in the order in which the code of \<^verbatim>\<open>execute\<close>
  produces them. A promise that never settles, user code that writes to the namespace and
  work that user code schedules for later are outside the model.
\<close>

datatype errval = ErrorObj string | Thrown jsval

fun truthy_err :: "errval \<Rightarrow> bool" where
  "truthy_err (ErrorObj m) = True"
| "truthy_err (Thrown v) = truthy v"

datatype completion =
    Return jsval
  | Throw errval
  | Fulfilled jsval
  | RejectedWith errval

text \<open>
  A runner that declares a parameter is called with the completion callback of \<^verbatim>\<open>execute\<close>
  (line 201). What it does with the callback is its own business: it may never call it, call
  it and drop the promise the callback returns, or call it and await (or return) that promise.
\<close>

datatype done_use =
    NoDone
  | DoneIgnored "errval option"
  | DoneAwaited "errval option"

record env =
  call_fn :: "fid \<Rightarrow> jsval list \<Rightarrow> completion"
  call_with_done :: "fid \<Rightarrow> done_use \<times> completion"

text \<open>
  What the engine does that can be observed: the three log lines of \<^verbatim>\<open>execute\<close> (colours and
  the measured duration are left to the logger), the logged errors, and the calls of user
  functions with their arguments.
\<close>

datatype event =
    LogNotFound string
  | LogStarting string
  | LogFinished string
  | LogError errval
  | Called fid "jsval list"
  | CalledWithDone fid

record state =
  ns :: PineFileType
  trace :: "event list"

definition emit :: "event \<Rightarrow> state \<Rightarrow> state" where
  "emit e st = st\<lparr>trace := trace st @ [e]\<rparr>"

text \<open>How the promise of an \<^verbatim>\<open>async\<close> function settles.\<close>

datatype settled = Resolved | Rejected errval

text \<open>
  The pair \<^verbatim>\<open>{ runner, options }\<close> that \<^verbatim>\<open>getRunner(getConfig())\<close> returns (line 106).
  \<^verbatim>\<open>getConfig\<close> and \<^verbatim>\<open>getRunner\<close> are not among the sources; their result is a parameter
  of the model.
\<close>

record runner_config =
  runner :: jsval
  options :: jsval

text \<open>A call \<^verbatim>\<open>f(a1, ..., an)\<close>; calling a value that is not a function throws a TypeError.\<close>

fun call_value :: "env \<Rightarrow> jsval \<Rightarrow> jsval list \<Rightarrow> state \<Rightarrow> completion \<times> state" where
  "call_value e (JFun f n) as st = (call_fn e f as, emit (Called f as) st)"
| "call_value e v as st = (Throw (ErrorObj ''TypeError: not a function''), st)"

text \<open>\<^verbatim>\<open>fn.length\<close> of a function value.\<close>

fun declared_length :: "jsval \<Rightarrow> nat option" where
  "declared_length (JFun f n) = Some n"
| "declared_length v = None"

text \<open>What \<^verbatim>\<open>try { await c; done() } catch (err) { done(err) }\<close> passes to \<^verbatim>\<open>done\<close>.\<close>

fun caught :: "completion \<Rightarrow> errval option" where
  "caught (Return v) = None"
| "caught (Fulfilled v) = None"
| "caught (Throw e) = Some e"
| "caught (RejectedWith e) = Some e"

text \<open>How \<^verbatim>\<open>await c\<close> at the end of an \<^verbatim>\<open>async\<close> function settles its promise.\<close>

fun outcome :: "completion \<Rightarrow> settled" where
  "outcome (Return v) = Resolved"
| "outcome (Fulfilled v) = Resolved"
| "outcome (Throw e) = Rejected e"
| "outcome (RejectedWith e) = Rejected e"

section \<open>The execution engine\<close>

text \<open>
  Runner selection, lines 101-125 of \<^verbatim>\<open>execute\<close>, in its two steps. The first is the chain
  of lines 106-118 over the configured runner and the resolved task \<open>fn0\<close>: it yields the
  function to use and whether one was found. The call of \<^verbatim>\<open>runner.taskExists\<close> is a call of
  user code: when it throws, \<^verbatim>\<open>execute\<close> rejects; a promise that it returns is an object,
  hence truthy.
\<close>

definition choose_fn ::
  "env \<Rightarrow> runner_config \<Rightarrow> string \<Rightarrow> jsval \<Rightarrow> jsval \<Rightarrow> state
     \<Rightarrow> (errval \<times> state) + (jsval \<times> bool \<times> state)" where
  "choose_fn e cfg name args fn0 st =
     (if typeof (runner cfg) = ''function'' then Inr (runner cfg, True, st)
      else if isObject (runner cfg) \<and> typeof (get_prop (runner cfg) ''default'') = ''function''
      then
        (if typeof (get_prop (runner cfg) ''taskExists'') = ''function''
         then
           (case call_value e (get_prop (runner cfg) ''taskExists'')
                   [JObj (ns st), JStr name, args, options cfg] st of
              (Return v, st2) \<Rightarrow> Inr (get_prop (runner cfg) ''default'', truthy v, st2)
            | (Throw x, st2) \<Rightarrow> Inl (x, st2)
            | (Fulfilled v, st2) \<Rightarrow> Inr (get_prop (runner cfg) ''default'', True, st2)
            | (RejectedWith x, st2) \<Rightarrow> Inr (get_prop (runner cfg) ''default'', True, st2))
         else Inr (get_prop (runner cfg) ''default'',
                   typeof (get_prop (runner cfg) ''default'') = ''function'', st))
      else if typeof fn0 = ''function'' then Inr (fn0, True, st)
      else Inr (fn0, False, st))"

text \<open>
  The second step, lines 120-125: an object with a truthy \<^verbatim>\<open>default\<close> is replaced by that
  entry, and the name from which the hook names are derived becomes \<^verbatim>\<open>name:default\<close>.
\<close>

definition use_default :: "string \<Rightarrow> jsval \<Rightarrow> bool \<Rightarrow> jsval \<times> string \<times> bool" where
  "use_default name fn fnExists =
     (if isObject fn \<and> truthy (get_prop fn ''default'')
      then (get_prop fn ''default'',
            (if name \<noteq> ''default'' then name @ '':default'' else ''default''),
            typeof (get_prop fn ''default'') = ''function'')
      else (fn, name, fnExists))"

text \<open>
  Lines 101-125 as a whole: the result is the function to invoke, the task name from which
  the hook names are derived, whether a function was found, and the state.
\<close>

definition select_fn ::
  "env \<Rightarrow> runner_config \<Rightarrow> string \<Rightarrow> jsval \<Rightarrow> state
     \<Rightarrow> (errval \<times> state) + (jsval \<times> string \<times> bool \<times> state)" where
  "select_fn e cfg name args st =
     (let r = resolveTask (ns st) (KeyStr name) '':'';
          st1 = st\<lparr>ns := snd r\<rparr>
      in case choose_fn e cfg name args (fst r) st1 of
           Inl x \<Rightarrow> Inl x
         | Inr (fn, fnExists, st2) \<Rightarrow>
             (case use_default name fn fnExists of
                (fn', fnName, fnExists') \<Rightarrow> Inr (fn', fnName, fnExists', st2)))"

text \<open>
  The value of the variable \<^verbatim>\<open>runner\<close> after the switch of lines 133-167: a value that the
  selected function returned, a promise that it returned, or the wrapper that the
  \<^verbatim>\<open>default\<close> case builds around the selected function (the wrapper is not called there).
\<close>

datatype runner_val =
    RValue jsval
  | RPromise "errval + jsval"
  | RWrapper jsval

fun produced :: "completion \<times> state \<Rightarrow> (errval + runner_val) \<times> state" where
  "produced (Return v, st) = (Inr (RValue v), st)"
| "produced (Throw x, st) = (Inl x, st)"
| "produced (Fulfilled v, st) = (Inr (RPromise (Inr v)), st)"
| "produced (RejectedWith x, st) = (Inr (RPromise (Inl x)), st)"

text \<open>The switch on \<^verbatim>\<open>fn.length\<close>, lines 133-167.\<close>

definition dispatch ::
  "env \<Rightarrow> runner_config \<Rightarrow> jsval \<Rightarrow> string \<Rightarrow> jsval \<Rightarrow> state \<Rightarrow> (errval + runner_val) \<times> state" where
  "dispatch e cfg fn name args st =
     (if declared_length fn = Some 4 then
        (if isObject (options cfg) \<and> length (object_keys (options cfg)) \<noteq> 0
         then produced (call_value e fn [JObj (ns st), JStr name, args, options cfg] st)
         else produced (call_value e fn [JObj (ns st), JStr name, args] st))
      else if declared_length fn = Some 3 then
        produced (call_value e fn [JObj (ns st), JStr name, args] st)
      else (Inr (RWrapper fn), st))"

text \<open>
  The body of the wrapper of lines 148-165 up to the call of \<^verbatim>\<open>done\<close>: with
  \<^verbatim>\<open>excludeMain\<close>, \<^verbatim>\<open>pify(fn)\<close> of a function calls the function itself. The other two
  cases are not reached (lemma \<open>select_fn_Inr\<close>: a function that was found is a function value);
  they follow \<^verbatim>\<open>pify\<close>, which throws a TypeError on a value that is neither a function nor
  an object, and the check of line 152.
\<close>

definition call_task :: "env \<Rightarrow> jsval \<Rightarrow> jsval \<Rightarrow> state \<Rightarrow> completion \<times> state" where
  "call_task e fn args st =
     (if typeof fn = ''function'' then call_value e fn [args] st
      else if fn \<noteq> JNull \<and> typeof fn = ''object''
      then (Throw (ErrorObj (''Expected task function to be a function, got '' @ typeof fn)), st)
      else (Throw (ErrorObj ''TypeError: Expected input to be a Function or Object''), st))"

text \<open>
  A hook, lines 169-174 and 212-217: derive the name, resolve it, and when it resolves run
  the whole engine on it. \<open>rec\<close> is the recursive call of \<^verbatim>\<open>execute\<close>.
\<close>

definition run_hook ::
  "(string \<Rightarrow> jsval \<Rightarrow> state \<Rightarrow> (settled \<times> state) option)
     \<Rightarrow> string \<Rightarrow> string \<Rightarrow> jsval \<Rightarrow> state \<Rightarrow> (settled \<times> state) option" where
  "run_hook rec fnName prefix args st =
     (let hookName = getFnName fnName prefix '':'';
          (hookFunc, ns1) = resolveTask (ns st) (KeyStr hookName) '':'';
          st1 = st\<lparr>ns := ns1\<rparr>
      in if truthy hookFunc then rec hookName args st1 else Some (Resolved, st1))"

text \<open>The completion callback, lines 201-218.\<close>

definition done_cb ::
  "(string \<Rightarrow> jsval \<Rightarrow> state \<Rightarrow> (settled \<times> state) option)
     \<Rightarrow> string \<Rightarrow> string \<Rightarrow> jsval \<Rightarrow> errval option \<Rightarrow> state \<Rightarrow> (settled \<times> state) option" where
  "done_cb rec name fnName args err st =
     (let st1 = (case err of
                   Some x \<Rightarrow> if truthy_err x then emit (LogError x) st else st
                 | None \<Rightarrow> st);
          st2 = emit (LogFinished name) st1
      in run_hook rec fnName ''post'' args st2)"

text \<open>
  The wrapper of lines 148-165 and \<^verbatim>\<open>doneify\<close> (lines 74-83) call \<^verbatim>\<open>done\<close> and drop the
  promise it returns: their own promise is fulfilled whatever becomes of the callback, and it
  may be fulfilled while the post-hook that the callback awaits is still running. The state
  of a result is the record of everything the execution causes, in the order in which it
  happens; it includes the events of such a post-hook, which in the program may follow the
  fulfilment of the promise.
\<close>

fun dropped :: "(settled \<times> state) option \<Rightarrow> (settled \<times> state) option" where
  "dropped None = None"
| "dropped (Some (r, st)) = Some (Resolved, st)"

text \<open>A runner that declares a parameter, called with the completion callback (line 201).\<close>

definition run_with_done ::
  "env \<Rightarrow> fid \<Rightarrow> (errval option \<Rightarrow> state \<Rightarrow> (settled \<times> state) option) \<Rightarrow> state
     \<Rightarrow> (settled \<times> state) option" where
  "run_with_done e g cb st =
     (let st1 = emit (CalledWithDone g) st in
      case call_with_done e g of
        (NoDone, c) \<Rightarrow> Some (outcome c, st1)
      | (DoneIgnored err, c) \<Rightarrow>
          (case cb err st1 of None \<Rightarrow> None | Some (r, st2) \<Rightarrow> Some (outcome c, st2))
      | (DoneAwaited err, c) \<Rightarrow>
          (case cb err st1 of
             None \<Rightarrow> None
           | Some (Rejected x, st2) \<Rightarrow> Some (Rejected x, st2)
           | Some (Resolved, st2) \<Rightarrow> Some (outcome c, st2)))"

text \<open>
  Lines 176-218: log the start, await a promise-valued runner, replace a runner that is not
  callable by one that throws, wrap a runner without parameters with \<^verbatim>\<open>doneify\<close>, and call
  the runner with the completion callback.
\<close>

definition run_runner ::
  "(string \<Rightarrow> jsval \<Rightarrow> state \<Rightarrow> (settled \<times> state) option)
     \<Rightarrow> env \<Rightarrow> string \<Rightarrow> string \<Rightarrow> jsval \<Rightarrow> runner_val \<Rightarrow> state \<Rightarrow> (settled \<times> state) option" where
  "run_runner rec e name fnName args rv st =
     (let st1 = emit (LogStarting name) st in
      case rv of
        RPromise (Inl x) \<Rightarrow> Some (Rejected x, st1)
      | RWrapper fn \<Rightarrow>
          (let (c, st2) = call_task e fn args st1
           in dropped (done_cb rec name fnName args (caught c) st2))
      | _ \<Rightarrow>
          (let v = (case rv of RPromise (Inr w) \<Rightarrow> w | RValue w \<Rightarrow> w | _ \<Rightarrow> JUndefined)
           in case v of
                JFun g n \<Rightarrow>
                  if n = 0
                  then (let (c, st2) = call_value e (JFun g n) [JArr []] st1
                        in dropped (done_cb rec name fnName args (caught c) st2))
                  else run_with_done e g (done_cb rec name fnName args) st1
              | _ \<Rightarrow>
                  (let beforeType = (if v = JNull then ''null'' else typeof v);
                       err = ErrorObj (''Expected return value of runner function to be a function, got '' @ beforeType)
                   in dropped (done_cb rec name fnName args (Some err) st1))))"

text \<open>
  Lines 133-218, the path of a task that was found: the switch, the pre-hook, the runner.
  A rejected \<^verbatim>\<open>await execute(pinefile, preName, args)\<close> rejects the execution.
\<close>

definition run_found ::
  "(string \<Rightarrow> jsval \<Rightarrow> state \<Rightarrow> (settled \<times> state) option)
     \<Rightarrow> env \<Rightarrow> runner_config \<Rightarrow> jsval \<Rightarrow> string \<Rightarrow> string \<Rightarrow> jsval \<Rightarrow> state
     \<Rightarrow> (settled \<times> state) option" where
  "run_found rec e cfg fn name fnName args st =
     (case dispatch e cfg fn name args st of
        (Inl x, st2) \<Rightarrow> Some (Rejected x, st2)
      | (Inr rv, st2) \<Rightarrow>
          (case run_hook rec fnName ''pre'' args st2 of
             None \<Rightarrow> None
           | Some (Rejected x, st3) \<Rightarrow> Some (Rejected x, st3)
           | Some (Resolved, st3) \<Rightarrow> run_runner rec e name fnName args rv st3))"

text \<open>The body of \<^verbatim>\<open>execute\<close> (lines 94-219), with its recursive calls as a parameter.\<close>

definition execute_body ::
  "(string \<Rightarrow> jsval \<Rightarrow> state \<Rightarrow> (settled \<times> state) option)
     \<Rightarrow> env \<Rightarrow> runner_config \<Rightarrow> string \<Rightarrow> jsval \<Rightarrow> state \<Rightarrow> (settled \<times> state) option" where
  "execute_body rec e cfg name args st =
     (case select_fn e cfg name args st of
        Inl (x, st1) \<Rightarrow> Some (Rejected x, st1)
      | Inr (fn, fnName, fnExists, st1) \<Rightarrow>
          if \<not> fnExists then Some (Resolved, emit (LogNotFound name) st1)
          else run_found rec e cfg fn name fnName args st1)"

text \<open>
  \<^verbatim>\<open>execute\<close>. The recursion through the hooks is bounded by a fuel argument: \<open>None\<close> means
  that the fuel ran out. Theorem \<open>execute_total\<close> shows that the fuel suffices when it
  exceeds the size of the namespace.
\<close>

fun execute ::
  "env \<Rightarrow> runner_config \<Rightarrow> nat \<Rightarrow> string \<Rightarrow> jsval \<Rightarrow> state \<Rightarrow> (settled \<times> state) option" where
  "execute e cfg 0 name args st = None"
| "execute e cfg (Suc k) name args st = execute_body (execute e cfg k) e cfg name args st"

text \<open>\<^verbatim>\<open>runTask\<close> (lines 230-236); an absent argument bag defaults to the empty object.\<close>

definition runTask ::
  "env \<Rightarrow> runner_config \<Rightarrow> nat \<Rightarrow> PineFileType \<Rightarrow> string \<Rightarrow> jsval \<Rightarrow> (settled \<times> state) option" where
  "runTask e cfg k pinefile name args =
     execute e cfg k name (if args = JUndefined then JObj [] else args) \<lparr>ns = pinefile, trace = []\<rparr>"

section \<open>Measures and predicates for the proofs\<close>

text \<open>
  A bound on the length of every name that resolves in a namespace: each key of the tree
  counts with its length and one separator, each array element with two characters.
\<close>

fun path_bound :: "jsval \<Rightarrow> nat"
  and fields_bound :: "(string \<times> jsval) list \<Rightarrow> nat"
  and elems_bound :: "jsval list \<Rightarrow> nat"
where
  "path_bound (JObj kvs) = fields_bound kvs"
| "path_bound (JArr xs) = elems_bound xs"
| "path_bound JUndefined = 0"
| "path_bound JNull = 0"
| "path_bound (JBool b) = 0"
| "path_bound (JNum n) = 0"
| "path_bound (JStr s) = 0"
| "path_bound (JFun g n) = 0"
| "fields_bound [] = 0"
| "fields_bound ((k, v) # kvs) = Suc (length k + path_bound v) + fields_bound kvs"
| "elems_bound [] = 0"
| "elems_bound (x # xs) = Suc (Suc (path_bound x)) + elems_bound xs"

text \<open>
  The recursive calls of a run of \<^verbatim>\<open>execute\<close> return, and keep the namespace within the
  bound \<open>M\<close>, for every hook name longer than \<open>L\<close> and no longer than \<open>M\<close>.
\<close>

definition hooks_return ::
  "(string \<Rightarrow> jsval \<Rightarrow> state \<Rightarrow> (settled \<times> state) option) \<Rightarrow> nat \<Rightarrow> nat \<Rightarrow> bool" where
  "hooks_return rec L M =
     (\<forall>hn a s. L < length hn \<longrightarrow> length hn \<le> M \<longrightarrow> fields_bound (ns s) \<le> M
        \<longrightarrow> (\<exists>r s'. rec hn a s = Some (r, s') \<and> fields_bound (ns s') \<le> M))"

text \<open>
  A relation between the state before and the state after that every step of the engine
  respects: it is reflexive and transitive, it holds across every logged event and call and
  across the write of \<^verbatim>\<open>resolveTask\<close>; across the "not found" line it has to hold only
  when the configuration can reach that line.
\<close>

definition step_closed :: "(state \<Rightarrow> state \<Rightarrow> bool) \<Rightarrow> runner_config \<Rightarrow> bool" where
  "step_closed R cfg =
     ((\<forall>s. R s s) \<and>
      (\<forall>a b c. R a b \<longrightarrow> R b c \<longrightarrow> R a c) \<and>
      (\<forall>ev s. (\<forall>n. ev \<noteq> LogNotFound n) \<longrightarrow> R s (emit ev s)) \<and>
      (\<forall>s key. R s (s\<lparr>ns := snd (resolveTask (ns s) (KeyStr key) '':'')\<rparr>)) \<and>
      (typeof (runner cfg) = ''function'' \<or> (\<forall>n s. R s (emit (LogNotFound n) s))))"

text \<open>Every recursive call that returns respects the relation.\<close>

definition hooks_related ::
  "(state \<Rightarrow> state \<Rightarrow> bool) \<Rightarrow> (string \<Rightarrow> jsval \<Rightarrow> state \<Rightarrow> (settled \<times> state) option) \<Rightarrow> bool" where
  "hooks_related R rec = (\<forall>hn a s r s'. rec hn a s = Some (r, s') \<longrightarrow> R s s')"

text \<open>No object of the tree has an object under its key \<^verbatim>\<open>default\<close>.\<close>

fun no_mapping_default :: "jsval \<Rightarrow> bool"
  and no_mapping_default_fields :: "(string \<times> jsval) list \<Rightarrow> bool"
  and no_mapping_default_elems :: "jsval list \<Rightarrow> bool"
where
  "no_mapping_default (JObj kvs) =
     (\<not> isObject (get_prop (JObj kvs) ''default'') \<and> no_mapping_default_fields kvs)"
| "no_mapping_default (JArr xs) = no_mapping_default_elems xs"
| "no_mapping_default JUndefined = True"
| "no_mapping_default JNull = True"
| "no_mapping_default (JBool b) = True"
| "no_mapping_default (JNum n) = True"
| "no_mapping_default (JStr s) = True"
| "no_mapping_default (JFun g n) = True"
| "no_mapping_default_fields [] = True"
| "no_mapping_default_fields ((k, v) # kvs) = (no_mapping_default v \<and> no_mapping_default_fields kvs)"
| "no_mapping_default_elems [] = True"
| "no_mapping_default_elems (x # xs) = (no_mapping_default x \<and> no_mapping_default_elems xs)"

text \<open>The error line that the completion callback logs for its argument (line 202).\<close>

definition logged :: "errval option \<Rightarrow> event list" where
  "logged err = (case err of Some x \<Rightarrow> if truthy_err x then [LogError x] else [] | None \<Rightarrow> [])"

text \<open>The calls of user functions among the events.\<close>

fun is_call :: "event \<Rightarrow> bool" where
  "is_call (Called f as) = True"
| "is_call (CalledWithDone g) = True"
| "is_call ev = False"

section \<open>Split, join and hook names\<close>

lemma split_aux_no_sep:
  "c \<notin> set s \<Longrightarrow> split_aux [c] acc s = [rev acc @ s]"
  by (induction s arbitrary: acc) auto

lemma split_aux_last_segment:
  "c \<notin> set l \<Longrightarrow> split_aux [c] acc (q @ c # l) = split_aux [c] acc q @ [l]"
proof (induction q arbitrary: acc)
  case Nil
  then show ?case by (simp add: split_aux_no_sep)
next
  case (Cons x q)
  then show ?case by simp
qed

lemma split_aux_nonempty: "split_aux sep acc s \<noteq> []"
  by (induction sep acc s rule: split_aux.induct) auto

lemma join_snoc: "xs \<noteq> [] \<Longrightarrow> join sep (xs @ [y]) = join sep xs @ sep @ y"
  by (induction sep xs rule: join.induct) auto

lemma join_split_aux: "join [c] (split_aux [c] acc s) = rev acc @ s"
proof (induction s arbitrary: acc)
  case Nil
  then show ?case by simp
next
  case (Cons x s)
  show ?case
  proof (cases "x = c")
    case True
    obtain y ys where ys: "split_aux [c] [] s = y # ys"
      using split_aux_nonempty [of "[c]" "[]" s] by (cases "split_aux [c] [] s") auto
    have "join [c] (y # ys) = s" using Cons.IH [of "[]"] ys by simp
    then show ?thesis using True ys by simp
  next
    case False
    then show ?thesis using Cons.IH [of "x # acc"] by simp
  qed
qed

lemma join_split: "join [c] (split s [c]) = s"
  by (simp add: split_def join_split_aux)

lemma getFnName_single: "c \<notin> set l \<Longrightarrow> getFnName l pre [c] = pre @ l"
  by (simp add: getFnName_def split_def split_aux_no_sep)

lemma getFnName_nested:
  assumes "c \<notin> set l"
  shows "getFnName (q @ c # l) pre [c] = q @ c # pre @ l"
proof -
  have s: "split (q @ c # l) [c] = split q [c] @ [l]"
    using assms by (simp add: split_def split_aux_last_segment)
  have ne: "split q [c] \<noteq> []" by (simp add: split_def split_aux_nonempty)
  have "getFnName (q @ c # l) pre [c] = join [c] (split q [c] @ [pre @ l])"
    by (simp add: getFnName_def s)
  also have "\<dots> = join [c] (split q [c]) @ [c] @ pre @ l"
    using ne by (rule join_snoc)
  finally show ?thesis by (simp add: join_split)
qed

lemma length_getFnName: "length (getFnName name pre [c]) = length name + length pre"
proof -
  let ?ns = "split name [c]"
  have ne: "?ns \<noteq> []" by (simp add: split_def split_aux_nonempty)
  have j: "join [c] ?ns = name" by (rule join_split)
  have *: "\<And>xs. xs \<noteq> [] \<Longrightarrow> length (join [c] (butlast xs @ [pre @ last xs])) = length (join [c] xs) + length pre"
  proof -
    fix xs :: "string list" assume "xs \<noteq> []"
    then show "length (join [c] (butlast xs @ [pre @ last xs])) = length (join [c] xs) + length pre"
      by (induction "[c]" xs rule: join.induct) auto
  qed
  show ?thesis using *[OF ne] ne j by (simp add: getFnName_def Let_def)
qed

section \<open>What resolution does to the namespace\<close>

lemma update_path_id:
  "no_mapping_default v \<Longrightarrow> update_path v ks flatten_default = v"
  "no_mapping_default_fields kvs \<Longrightarrow> update_fields kvs k ks flatten_default = kvs"
  "no_mapping_default_elems xs \<Longrightarrow> update_elems xs i ks flatten_default = xs"
proof (induction v ks "flatten_default" and kvs k ks "flatten_default" and xs i ks "flatten_default"
    rule: update_path_update_fields_update_elems.induct)
  case (1 v)
  then show ?case by (cases v) (auto simp: flatten_default_def)
qed (auto split: option.splits)

lemma resolveTask_frame:
  "no_mapping_default (JObj obj) \<Longrightarrow> snd (resolveTask obj key sep) = obj"
  using update_path_id(1) [of "JObj obj"]
  by (simp add: resolveTask_def Let_def fields_of_def del: no_mapping_default.simps update_path.simps)

section \<open>Names that resolve are bounded by the namespace\<close>

lemma map_of_bound:
  "map_of kvs k = Some v \<Longrightarrow> Suc (length k + path_bound v) \<le> fields_bound kvs"
  by (induction kvs) (auto split: if_splits)

lemma nth_bound:
  "i < length xs \<Longrightarrow> Suc (Suc i) + path_bound (xs ! i) \<le> elems_bound xs"
proof (induction xs arbitrary: i)
  case Nil
  then show ?case by simp
next
  case (Cons x xs)
  show ?case
  proof (cases i)
    case 0
    then show ?thesis by simp
  next
    case (Suc j)
    then have "Suc (Suc j) + path_bound (xs ! j) \<le> elems_bound xs"
      using Cons.IH [of j] Cons.prems by simp
    then show ?thesis using Suc by simp
  qed
qed

lemma length_dec: "length (dec i) \<le> Suc i"
proof (induction i rule: dec.induct)
  case (1 n)
  show ?case
  proof (cases "n < 10")
    case True
    then show ?thesis by (subst dec.simps) simp
  next
    case False
    then have "length (dec (n div 10)) \<le> Suc (n div 10)" using 1 by simp
    moreover have "Suc (n div 10) < n" using False by simp
    ultimately show ?thesis using False by (subst dec.simps) simp
  qed
qed

lemma array_index_Some: "array_index k n = Some i \<Longrightarrow> i < n \<and> dec i = k"
  by (auto simp: array_index_def find_Some_iff)

lemma last_dec: "dec n \<noteq> [] \<and> last (dec n) = char_of (48 + n mod 10)"
  by (subst (1 2) dec.simps) simp

lemma dec_not_default: "dec n \<noteq> ''default''"
proof
  assume a: "dec n = ''default''"
  have "last (dec n) = char_of (48 + n mod 10)" using last_dec by blast
  then have "char_of (48 + n mod 10) = CHR ''t''" using a by simp
  then have "of_char (char_of (48 + n mod 10) :: char) = (of_char (CHR ''t'') :: nat)" by simp
  then have m: "(48 + n mod 10) mod 256 = (116 :: nat)" by simp
  have lt: "n mod 10 < 10" by simp
  then have "48 + n mod 10 < 256" by linarith
  then have "(48 + n mod 10) mod 256 = 48 + n mod 10" by (rule mod_less)
  then have "48 + n mod 10 = 116" using m by simp
  then show False using lt by linarith
qed

lemma array_index_default: "array_index ''default'' n = None"
  by (auto simp: array_index_def find_None_iff dec_not_default)

lemma get_prop_bound:
  assumes "get_prop v k = r" "r \<noteq> JUndefined" "\<forall>n. r \<noteq> JNum n"
  shows "Suc (length k + path_bound r) \<le> path_bound v"
proof (cases v)
  case (JObj kvs)
  then show ?thesis using assms by (auto split: option.splits dest: map_of_bound)
next
  case (JArr xs)
  then obtain i where i: "array_index k (length xs) = Some i" "r = xs ! i"
    using assms by (auto split: option.splits if_splits)
  then have "i < length xs" "dec i = k" using array_index_Some by blast+
  then have "length k \<le> Suc i" using length_dec [of i] by simp
  then show ?thesis using nth_bound [OF \<open>i < length xs\<close>] i JArr by simp
qed (use assms in auto)

lemma walk_False: "walk (JBool False) ks = JBool False"
  by (induction ks) (auto simp: walk_def walk_step_def)

lemma walk_Cons: "walk v (k # ks) = walk (walk_step v k) ks"
  by (simp add: walk_def)

lemma walk_leaf:
  "\<not> isObject v \<Longrightarrow> \<forall>xs. v \<noteq> JArr xs \<Longrightarrow> ks \<noteq> [] \<Longrightarrow> walk v ks = JBool False"
  by (cases ks; cases v) (auto simp: walk_Cons walk_step_def walk_False)

lemma walk_bound:
  "ks \<noteq> [] \<Longrightarrow> isObject (walk v ks) \<or> typeof (walk v ks) = ''function''
     \<Longrightarrow> length (join [c] ks) \<le> path_bound v"
proof (induction ks arbitrary: v)
  case Nil
  then show ?case by simp
next
  case (Cons k ks)
  let ?r = "get_prop v k"
  have t: "truthy ?r"
  proof (rule ccontr)
    assume "\<not> truthy ?r"
    then have "walk v (k # ks) = JBool False" by (simp add: walk_Cons walk_step_def walk_False)
    then show False using Cons.prems by simp
  qed
  then have ws: "walk_step v k = ?r" by (simp add: walk_step_def)
  show ?case
  proof (cases ks)
    case Nil
    then have "walk v (k # ks) = ?r" using ws by (simp add: walk_def)
    then have "?r \<noteq> JUndefined" "\<forall>n. ?r \<noteq> JNum n" using Cons.prems by auto
    then show ?thesis using get_prop_bound [of v k ?r] Nil by simp
  next
    case (Cons k2 ks2)
    have w: "walk v (k # ks) = walk ?r ks" using ws by (simp add: walk_Cons)
    have node: "isObject ?r \<or> (\<exists>xs. ?r = JArr xs)"
    proof (rule ccontr)
      assume "\<not> ?thesis"
      then have "walk ?r ks = JBool False" using walk_leaf [of ?r ks] Cons by auto
      then show False using w Cons.prems by simp
    qed
    then have "?r \<noteq> JUndefined" "\<forall>n. ?r \<noteq> JNum n" by auto
    then have b: "Suc (length k + path_bound ?r) \<le> path_bound v"
      using get_prop_bound [of v k ?r] by simp
    have "length (join [c] ks) \<le> path_bound ?r"
      using Cons.IH [of ?r] Cons.prems w Cons by simp
    then show ?thesis using b Cons by simp
  qed
qed

lemma resolveTask_bound:
  assumes "truthy (fst (resolveTask obj (KeyStr key) '':''))"
  shows "length key \<le> fields_bound obj"
proof -
  let ?ps = "split key '':''"
  let ?t = "walk (JObj obj) ?ps"
  have k: "key \<noteq> []" using assms by (auto simp: resolveTask_def)
  have ne: "?ps \<noteq> []" by (simp add: split_def split_aux_nonempty)
  have "isObject ?t \<or> typeof ?t = ''function''"
    using assms k by (auto simp: resolveTask_def Let_def validTaskValue_def split: if_splits)
  then have "length (join '':'' ?ps) \<le> path_bound (JObj obj)"
    using walk_bound [OF ne, of "JObj obj" "CHR '':''"] by simp
  then show ?thesis by (simp add: join_split)
qed

lemma update_bound:
  "map_of kvs k = Some v \<Longrightarrow> path_bound w \<le> path_bound v
     \<Longrightarrow> fields_bound (AList.update k w kvs) \<le> fields_bound kvs"
  by (induction kvs) (auto split: if_splits)

lemma flatten_default_bound: "path_bound (flatten_default t) \<le> path_bound t"
proof (cases "isObject (get_prop t ''default'')")
  case False
  then show ?thesis by (simp add: flatten_default_def)
next
  case True
  then obtain d where d: "get_prop t ''default'' = JObj d" by (cases "get_prop t ''default''") auto
  then obtain kvs where t: "t = JObj kvs"
    by (cases t) (auto simp: array_index_default split: option.splits if_splits)
  have m: "map_of kvs ''default'' = Some (JObj d)" using d t by (auto split: option.splits)
  have "path_bound (get_prop (JObj d) ''_'') \<le> path_bound (JObj d)"
    by (auto split: option.splits dest: map_of_bound)
  then show ?thesis using update_bound [OF m] d t by (simp add: flatten_default_def)
qed

lemma update_path_bound:
  "path_bound (update_path v ks flatten_default) \<le> path_bound v"
  "fields_bound (update_fields kvs k ks flatten_default) \<le> fields_bound kvs"
  "elems_bound (update_elems xs i ks flatten_default) \<le> elems_bound xs"
proof (induction v ks "flatten_default" and kvs k ks "flatten_default" and xs i ks "flatten_default"
    rule: update_path_update_fields_update_elems.induct)
  case (1 v)
  then show ?case by (simp add: flatten_default_bound)
qed (auto split: option.splits)

lemma resolveTask_ns_bound: "fields_bound (snd (resolveTask obj key sep)) \<le> fields_bound obj"
proof -
  have "fields_bound (fields_of v obj) \<le> fields_bound obj" if "path_bound v \<le> fields_bound obj" for v
    using that by (cases v) (auto simp: fields_of_def)
  then show ?thesis
    using update_path_bound(1) [of "JObj obj"]
    by (simp add: resolveTask_def Let_def del: update_path.simps)
qed

section \<open>Selection, dispatch and the state\<close>

lemma ns_emit [simp]: "ns (emit ev st) = ns st"
  by (simp add: emit_def)

lemma trace_emit [simp]: "trace (emit ev st) = trace st @ [ev]"
  by (simp add: emit_def)

lemma call_value_ns: "call_value e v as st = (c, st') \<Longrightarrow> ns st' = ns st"
  by (cases v) auto

lemma call_task_ns: "call_task e fn args st = (c, st') \<Longrightarrow> ns st' = ns st"
  by (auto simp: call_task_def dest: call_value_ns split: if_splits)

lemma produced_ns: "produced (c, st) = (r, st') \<Longrightarrow> st' = st"
  by (cases c) auto

lemma dispatch_ns: "dispatch e cfg fn name args st = (r, st') \<Longrightarrow> ns st' = ns st"
proof -
  have *: "\<And>as. produced (call_value e fn as st) = (r, st') \<Longrightarrow> ns st' = ns st"
  proof -
    fix as assume a: "produced (call_value e fn as st) = (r, st')"
    obtain c s where cs: "call_value e fn as st = (c, s)" by (cases "call_value e fn as st")
    then have "s = st'" using a produced_ns [of c s r st'] by simp
    then show "ns st' = ns st" using call_value_ns cs by blast
  qed
  assume "dispatch e cfg fn name args st = (r, st')"
  then show ?thesis by (auto simp: dispatch_def dest: * split: if_splits)
qed

lemma typeof_function: "typeof v = ''function'' \<longleftrightarrow> (\<exists>f n. v = JFun f n)"
  by (cases v) auto

lemma isObject_not_function: "isObject v \<Longrightarrow> typeof v \<noteq> ''function''"
  by (cases v) auto

lemma use_default_function: "typeof fn = ''function'' \<Longrightarrow> use_default name fn ex = (fn, name, ex)"
  by (auto simp: use_default_def dest: isObject_not_function)

lemma use_default_length: "use_default name fn ex = (fn', fnName, ex') \<Longrightarrow> length name \<le> length fnName"
  by (auto simp: use_default_def split: if_splits)

lemma use_default_found: "use_default name fn ex = (fn', fnName, True) \<Longrightarrow> typeof fn = ''function'' \<or> \<not> ex \<Longrightarrow> typeof fn' = ''function''"
  by (auto simp: use_default_def split: if_splits)

lemma choose_fn_ns:
  "choose_fn e cfg name args fn0 st = Inr (fn, ex, st2) \<Longrightarrow> ns st2 = ns st"
  "choose_fn e cfg name args fn0 st = Inl (x, st2) \<Longrightarrow> ns st2 = ns st"
  by (auto simp: choose_fn_def split: if_splits prod.splits completion.splits
        simp del: call_value.simps dest: call_value_ns)

lemma select_fn_Inr:
  assumes "select_fn e cfg name args st = Inr (fn, fnName, ex, st1)"
  shows "ns st1 = snd (resolveTask (ns st) (KeyStr name) '':'')"
    and "length name \<le> length fnName"
    and "ex \<Longrightarrow> \<exists>f n. fn = JFun f n"
proof -
  let ?r = "resolveTask (ns st) (KeyStr name) '':''"
  let ?s1 = "st\<lparr>ns := snd ?r\<rparr>"
  obtain fn1 ex1 where c: "choose_fn e cfg name args (fst ?r) ?s1 = Inr (fn1, ex1, st1)"
    and u: "use_default name fn1 ex1 = (fn, fnName, ex)"
    using assms
    by (auto simp: select_fn_def Let_def split: sum.splits prod.splits)
  show "ns st1 = snd ?r" using choose_fn_ns(1) [OF c] by simp
  show "length name \<le> length fnName" using use_default_length [OF u] .
  have "ex1 \<Longrightarrow> typeof fn1 = ''function''"
    using c
    by (auto simp: choose_fn_def split: if_splits prod.splits completion.splits
        simp del: call_value.simps)
  then have "ex \<Longrightarrow> typeof fn = ''function''"
    using use_default_found [of name fn1 ex1 fn fnName] u by auto
  then show "ex \<Longrightarrow> \<exists>f n. fn = JFun f n" using typeof_function by blast
qed

lemma select_fn_Inl:
  assumes "select_fn e cfg name args st = Inl (x, st1)"
  shows "ns st1 = snd (resolveTask (ns st) (KeyStr name) '':'')"
proof -
  let ?r = "resolveTask (ns st) (KeyStr name) '':''"
  let ?s1 = "st\<lparr>ns := snd ?r\<rparr>"
  have c: "choose_fn e cfg name args (fst ?r) ?s1 = Inl (x, st1)"
    using assms
    by (auto simp: select_fn_def Let_def split: sum.splits prod.splits)
  show ?thesis using choose_fn_ns(2) [OF c] by simp
qed

section \<open>Every execution returns\<close>

lemma run_hook_total:
  assumes good: "hooks_return rec L M"
    and "L \<le> length fnName" "prefix \<noteq> []" "fields_bound (ns st) \<le> M"
  shows "\<exists>r s'. run_hook rec fnName prefix args st = Some (r, s') \<and> fields_bound (ns s') \<le> M"
proof -
  let ?hn = "getFnName fnName prefix '':''"
  obtain hf ns1 where r: "resolveTask (ns st) (KeyStr ?hn) '':'' = (hf, ns1)"
    by (cases "resolveTask (ns st) (KeyStr ?hn) '':''")
  have b1: "fields_bound ns1 \<le> M"
    using resolveTask_ns_bound [of "ns st" "KeyStr ?hn" "'':''"] r assms(4) by simp
  show ?thesis
  proof (cases "truthy hf")
    case True
    then have "length ?hn \<le> fields_bound (ns st)"
      using resolveTask_bound [of "ns st" ?hn] r by simp
    then have le: "length ?hn \<le> M" using assms(4) by simp
    have "length ?hn = length fnName + length prefix" by (rule length_getFnName)
    then have lt: "L < length ?hn" using assms(2,3) by (cases prefix) auto
    have "\<exists>r s'. rec ?hn args (st\<lparr>ns := ns1\<rparr>) = Some (r, s') \<and> fields_bound (ns s') \<le> M"
      using good lt le b1 unfolding hooks_return_def by simp
    then show ?thesis using r True by (simp add: run_hook_def)
  next
    case False
    then show ?thesis using r b1 by (simp add: run_hook_def)
  qed
qed

lemma done_cb_total:
  assumes good: "hooks_return rec L M"
    and "L \<le> length fnName" "fields_bound (ns st) \<le> M"
  shows "\<exists>r s'. done_cb rec name fnName args err st = Some (r, s') \<and> fields_bound (ns s') \<le> M"
  unfolding done_cb_def Let_def
  by (rule run_hook_total [OF good]) (use assms(2,3) in \<open>auto split: option.splits\<close>)

lemma dropped_total:
  "\<exists>r s'. x = Some (r, s') \<and> P s' \<Longrightarrow> \<exists>r s'. dropped x = Some (r, s') \<and> P s'"
  by auto

lemma run_with_done_total:
  assumes cb: "\<And>err s. fields_bound (ns s) \<le> M
                 \<Longrightarrow> \<exists>r s'. cb err s = Some (r, s') \<and> fields_bound (ns s') \<le> M"
    and "fields_bound (ns st) \<le> M"
  shows "\<exists>r s'. run_with_done e g cb st = Some (r, s') \<and> fields_bound (ns s') \<le> M"
proof -
  let ?s1 = "emit (CalledWithDone g) st"
  have b: "fields_bound (ns ?s1) \<le> M" using assms(2) by simp
  obtain u c where uc: "call_with_done e g = (u, c)" by (cases "call_with_done e g")
  show ?thesis
  proof (cases u)
    case NoDone
    then show ?thesis using uc b by (simp add: run_with_done_def)
  next
    case (DoneIgnored err)
    obtain r s' where "cb err ?s1 = Some (r, s')" "fields_bound (ns s') \<le> M"
      using cb [OF b] by blast
    then show ?thesis using uc DoneIgnored by (simp add: run_with_done_def)
  next
    case (DoneAwaited err)
    obtain r s' where "cb err ?s1 = Some (r, s')" "fields_bound (ns s') \<le> M"
      using cb [OF b] by blast
    then show ?thesis using uc DoneAwaited by (cases r) (simp_all add: run_with_done_def)
  qed
qed

lemma run_runner_total:
  assumes good: "hooks_return rec L M"
    and len: "L \<le> length fnName" and bnd: "fields_bound (ns st) \<le> M"
  shows "\<exists>r s'. run_runner rec e name fnName args rv st = Some (r, s') \<and> fields_bound (ns s') \<le> M"
proof -
  let ?s1 = "emit (LogStarting name) st"
  have b: "fields_bound (ns ?s1) \<le> M" using bnd by simp
  have cb: "\<And>err s. fields_bound (ns s) \<le> M
      \<Longrightarrow> \<exists>r s'. done_cb rec name fnName args err s = Some (r, s') \<and> fields_bound (ns s') \<le> M"
    by (rule done_cb_total [OF good len])
  have dr: "\<And>err s. fields_bound (ns s) \<le> M
      \<Longrightarrow> \<exists>r s'. dropped (done_cb rec name fnName args err s) = Some (r, s') \<and> fields_bound (ns s') \<le> M"
    by (rule dropped_total) (rule cb)
  have val: "\<exists>r s'. run_runner rec e name fnName args rv st = Some (r, s') \<and> fields_bound (ns s') \<le> M"
    if v: "rv = RValue v \<or> rv = RPromise (Inr v)" for v
  proof (cases v)
    case (JFun g n)
    show ?thesis
    proof (cases "n = 0")
      case True
      obtain c s2 where c: "call_value e (JFun g n) [JArr []] ?s1 = (c, s2)"
        by (cases "call_value e (JFun g n) [JArr []] ?s1")
      then have "fields_bound (ns s2) \<le> M" using call_value_ns [OF c] b by simp
      from dr [OF this] show ?thesis using v JFun True c
        by (auto simp: run_runner_def Let_def simp del: call_value.simps)
    next
      case False
      then show ?thesis
        using run_with_done_total [where cb = "done_cb rec name fnName args" and e = e and g = g, OF cb b]
          v JFun
        by (auto simp: run_runner_def Let_def)
    qed
  qed (use v dr [OF b] in \<open>auto simp: run_runner_def Let_def\<close>)
  show ?thesis
  proof (cases rv)
    case (RValue v)
    then show ?thesis using val by blast
  next
    case (RPromise p)
    show ?thesis
    proof (cases p)
      case (Inl x)
      then show ?thesis using RPromise b by (simp add: run_runner_def Let_def)
    next
      case (Inr v)
      then show ?thesis using val RPromise by blast
    qed
  next
    case (RWrapper fn)
    obtain c s2 where c: "call_task e fn args ?s1 = (c, s2)" by (cases "call_task e fn args ?s1")
    then have "fields_bound (ns s2) \<le> M" using call_task_ns [OF c] b by simp
    from dr [OF this] show ?thesis using RWrapper c by (auto simp: run_runner_def Let_def)
  qed
qed

lemma run_found_total:
  assumes good: "hooks_return rec L M"
    and len: "L \<le> length fnName" and bnd: "fields_bound (ns st) \<le> M"
  shows "\<exists>r s'. run_found rec e cfg fn name fnName args st = Some (r, s') \<and> fields_bound (ns s') \<le> M"
proof -
  obtain d s2 where d: "dispatch e cfg fn name args st = (d, s2)"
    by (cases "dispatch e cfg fn name args st")
  have b2: "fields_bound (ns s2) \<le> M" using dispatch_ns [OF d] bnd by simp
  show ?thesis
  proof (cases d)
    case (Inl x)
    then show ?thesis using d b2 by (simp add: run_found_def)
  next
    case (Inr rv)
    obtain r s3 where h: "run_hook rec fnName ''pre'' args s2 = Some (r, s3)" "fields_bound (ns s3) \<le> M"
      using run_hook_total [OF good len _ b2, where prefix = "''pre''" and args = args] by auto
    show ?thesis
    proof (cases r)
      case Resolved
      then show ?thesis
        using run_runner_total [OF good len h(2), where e = e and name = name and args = args and rv = rv]
          d Inr h(1)
        by (simp add: run_found_def)
    next
      case (Rejected x)
      then show ?thesis using d Inr h by (simp add: run_found_def)
    qed
  qed
qed

lemma execute_body_total:
  assumes good: "hooks_return rec (length name) M"
    and bnd: "fields_bound (ns st) \<le> M"
  shows "\<exists>r s'. execute_body rec e cfg name args st = Some (r, s') \<and> fields_bound (ns s') \<le> M"
proof (cases "select_fn e cfg name args st")
  case (Inl a)
  obtain x s1 where a: "a = (x, s1)" by (cases a)
  have "fields_bound (ns s1) \<le> M"
    using select_fn_Inl [of e cfg name args st x s1] Inl a bnd
      resolveTask_ns_bound [of "ns st" "KeyStr name" "'':''"] by simp
  then show ?thesis using Inl a by (simp add: execute_body_def)
next
  case (Inr b)
  obtain fn fnName ex s1 where b: "b = (fn, fnName, ex, s1)" by (cases b)
  have s: "select_fn e cfg name args st = Inr (fn, fnName, ex, s1)" using Inr b by simp
  have b1: "fields_bound (ns s1) \<le> M"
    using select_fn_Inr(1) [OF s] bnd resolveTask_ns_bound [of "ns st" "KeyStr name" "'':''"] by simp
  have len: "length name \<le> length fnName" using select_fn_Inr(2) [OF s] .
  show ?thesis
  proof (cases ex)
    case True
    then show ?thesis
      using run_found_total [OF good len b1, where e = e and cfg = cfg and fn = fn and name = name
          and args = args] s
      by (simp add: execute_body_def)
  next
    case False
    then show ?thesis using s b1 by (simp add: execute_body_def)
  qed
qed

lemma execute_total_aux:
  "fields_bound (ns st) \<le> M \<Longrightarrow> M < Suc k + length name
     \<Longrightarrow> \<exists>r s'. execute e cfg (Suc k) name args st = Some (r, s') \<and> fields_bound (ns s') \<le> M"
proof (induction k arbitrary: name args st)
  case 0
  have "hooks_return (execute e cfg 0) (length name) M"
    using 0 by (auto simp: hooks_return_def)
  then have "\<exists>r s'. execute_body (execute e cfg 0) e cfg name args st = Some (r, s') \<and> fields_bound (ns s') \<le> M"
    using 0(1) by (rule execute_body_total)
  then show ?case by simp
next
  case (Suc k)
  have "hooks_return (execute e cfg (Suc k)) (length name) M"
    unfolding hooks_return_def
  proof (intro allI impI)
    fix hn :: string and a :: jsval and s :: state
    assume "length name < length hn" "length hn \<le> M" "fields_bound (ns s) \<le> M"
    then show "\<exists>r s'. execute e cfg (Suc k) hn a s = Some (r, s') \<and> fields_bound (ns s') \<le> M"
      using Suc.IH [where st = s and name = hn and args = a] Suc.prems by simp
  qed
  then have "\<exists>r s'. execute_body (execute e cfg (Suc k)) e cfg name args st = Some (r, s') \<and> fields_bound (ns s') \<le> M"
    using Suc.prems(1) by (rule execute_body_total)
  then show ?case by simp
qed

lemma execute_total:
  "fields_bound (ns st) \<le> k \<Longrightarrow> \<exists>r s'. execute e cfg (Suc k) name args st = Some (r, s')"
  using execute_total_aux [where st = st and M = k and k = k and name = name and e = e and cfg = cfg
      and args = args] by auto

section \<open>Relations that every execution respects\<close>

lemma sc_refl: "step_closed R cfg \<Longrightarrow> R s s"
  by (simp add: step_closed_def)

lemma sc_trans: "step_closed R cfg \<Longrightarrow> R a b \<Longrightarrow> R b c \<Longrightarrow> R a c"
  unfolding step_closed_def by blast

lemma sc_emit: "step_closed R cfg \<Longrightarrow> \<forall>n. ev \<noteq> LogNotFound n \<Longrightarrow> R s (emit ev s)"
  unfolding step_closed_def by blast

lemma sc_resolve: "step_closed R cfg \<Longrightarrow> R s (s\<lparr>ns := snd (resolveTask (ns s) (KeyStr key) '':'')\<rparr>)"
  unfolding step_closed_def by blast

lemma call_value_rel:
  assumes "step_closed R cfg" "call_value e v as st = (c, st')"
  shows "R st st'"
proof (cases v)
  case (JFun f n)
  then have "st' = emit (Called f as) st" using assms(2) by auto
  then show ?thesis using sc_emit [OF assms(1), of "Called f as" st] by simp
qed (use assms sc_refl in auto)

lemma call_task_rel:
  assumes "step_closed R cfg" "call_task e fn args st = (c, st')"
  shows "R st st'"
proof (cases "typeof fn = ''function''")
  case True
  then show ?thesis using assms call_value_rel [of R cfg e fn "[args]" st c st']
    by (simp add: call_task_def)
next
  case False
  then have "st' = st" using assms(2) by (auto simp: call_task_def split: if_splits)
  then show ?thesis using sc_refl [OF assms(1)] by simp
qed

lemma dispatch_rel:
  assumes sc: "step_closed R cfg" and d: "dispatch e cfg fn name args st = (r, st')"
  shows "R st st'"
proof -
  have *: "R st st'" if "produced (call_value e fn as st) = (r, st')" for as
  proof -
    obtain c s where cs: "call_value e fn as st = (c, s)" by (cases "call_value e fn as st")
    then have "s = st'" using that produced_ns [of c s r st'] by simp
    then show ?thesis using call_value_rel [OF sc cs] by simp
  qed
  show ?thesis
  proof (cases "declared_length fn = Some 4 \<or> declared_length fn = Some 3")
    case True
    then show ?thesis using d * by (auto simp: dispatch_def split: if_splits)
  next
    case False
    then have "st' = st" using d by (auto simp: dispatch_def)
    then show ?thesis using sc_refl [OF sc] by simp
  qed
qed

lemma choose_fn_rel:
  assumes sc: "step_closed R cfg"
  shows "choose_fn e cfg name args fn0 st = Inr (fn, ex, st2) \<Longrightarrow> R st st2"
    and "choose_fn e cfg name args fn0 st = Inl (x, st2) \<Longrightarrow> R st st2"
proof -
  let ?call = "call_value e (get_prop (runner cfg) ''taskExists'') [JObj (ns st), JStr name, args, options cfg] st"
  obtain c s where cs: "?call = (c, s)" by (cases ?call)
  have r: "R st s" using call_value_rel [OF sc cs] .
  have r0: "R st st" using sc_refl [OF sc] .
  show "choose_fn e cfg name args fn0 st = Inr (fn, ex, st2) \<Longrightarrow> R st st2"
    using cs r r0
    by (auto simp: choose_fn_def split: if_splits completion.splits simp del: call_value.simps)
  show "choose_fn e cfg name args fn0 st = Inl (x, st2) \<Longrightarrow> R st st2"
    using cs r r0
    by (auto simp: choose_fn_def split: if_splits completion.splits simp del: call_value.simps)
qed

lemma select_fn_rel:
  assumes sc: "step_closed R cfg"
  shows "select_fn e cfg name args st = Inr (fn, fnName, ex, st1) \<Longrightarrow> R st st1"
    and "select_fn e cfg name args st = Inl (x, st1) \<Longrightarrow> R st st1"
proof -
  let ?r = "resolveTask (ns st) (KeyStr name) '':''"
  let ?s1 = "st\<lparr>ns := snd ?r\<rparr>"
  have r1: "R st ?s1" using sc_resolve [OF sc] .
  {
    assume "select_fn e cfg name args st = Inr (fn, fnName, ex, st1)"
    then obtain fn1 ex1 where "choose_fn e cfg name args (fst ?r) ?s1 = Inr (fn1, ex1, st1)"
      by (auto simp: select_fn_def Let_def split: sum.splits prod.splits)
    then have "R ?s1 st1" using choose_fn_rel(1) [OF sc] by blast
    then show "R st st1" using sc_trans [OF sc r1] by blast
  }
  {
    assume "select_fn e cfg name args st = Inl (x, st1)"
    then have "choose_fn e cfg name args (fst ?r) ?s1 = Inl (x, st1)"
      by (auto simp: select_fn_def Let_def split: sum.splits prod.splits)
    then have "R ?s1 st1" using choose_fn_rel(2) [OF sc] by blast
    then show "R st st1" using sc_trans [OF sc r1] by blast
  }
qed

lemma select_fn_callable_runner:
  assumes "typeof (runner cfg) = ''function''"
  shows "select_fn e cfg name args st =
           Inr (runner cfg, name, True, st\<lparr>ns := snd (resolveTask (ns st) (KeyStr name) '':'')\<rparr>)"
  using assms use_default_function [of "runner cfg" name True]
  by (simp add: select_fn_def Let_def choose_fn_def)

lemma run_hook_rel:
  assumes sc: "step_closed R cfg" and hr: "hooks_related R rec"
    and h: "run_hook rec fnName prefix args st = Some (r, st')"
  shows "R st st'"
proof -
  let ?hn = "getFnName fnName prefix '':''"
  let ?res = "resolveTask (ns st) (KeyStr ?hn) '':''"
  let ?s1 = "st\<lparr>ns := snd ?res\<rparr>"
  have r1: "R st ?s1" using sc_resolve [OF sc] .
  show ?thesis
  proof (cases "truthy (fst ?res)")
    case True
    then have "rec ?hn args ?s1 = Some (r, st')"
      using h by (simp add: run_hook_def Let_def split: prod.splits)
    then have "R ?s1 st'" using hr unfolding hooks_related_def by blast
    then show ?thesis using sc_trans [OF sc r1] by blast
  next
    case False
    then have "st' = ?s1" using h by (simp add: run_hook_def Let_def split: prod.splits)
    then show ?thesis using r1 by simp
  qed
qed

lemma done_cb_rel:
  assumes sc: "step_closed R cfg" and hr: "hooks_related R rec"
    and h: "done_cb rec name fnName args err st = Some (r, st')"
  shows "R st st'"
proof -
  let ?s1 = "(case err of Some x \<Rightarrow> if truthy_err x then emit (LogError x) st else st | None \<Rightarrow> st)"
  let ?s2 = "emit (LogFinished name) ?s1"
  have a: "R st ?s1"
    using sc_refl [OF sc, of st] sc_emit [OF sc, of _ st] by (auto split: option.splits)
  have b: "R ?s1 ?s2" using sc_emit [OF sc] by simp
  have "run_hook rec fnName ''post'' args ?s2 = Some (r, st')"
    using h by (simp add: done_cb_def Let_def)
  then have "R ?s2 st'" using run_hook_rel [OF sc hr] by blast
  then show ?thesis using sc_trans [OF sc a] sc_trans [OF sc b] by blast
qed

lemma dropped_Some: "dropped x = Some (r, s) \<Longrightarrow> \<exists>r'. x = Some (r', s)"
  by (cases x) auto

lemma run_with_done_rel:
  assumes sc: "step_closed R cfg"
    and cb: "\<forall>err s r s'. cb err s = Some (r, s') \<longrightarrow> R s s'"
    and h: "run_with_done e g cb st = Some (r, st')"
  shows "R st st'"
proof -
  let ?s1 = "emit (CalledWithDone g) st"
  have a: "R st ?s1" using sc_emit [OF sc] by simp
  obtain u c where uc: "call_with_done e g = (u, c)" by (cases "call_with_done e g")
  show ?thesis
  proof (cases u)
    case NoDone
    then have "st' = ?s1" using h uc by (simp add: run_with_done_def)
    then show ?thesis using a by simp
  next
    case (DoneIgnored err)
    then obtain r2 where "cb err ?s1 = Some (r2, st')"
      using h uc by (auto simp: run_with_done_def split: option.splits)
    then show ?thesis using cb sc_trans [OF sc a] by blast
  next
    case (DoneAwaited err)
    then obtain r2 where "cb err ?s1 = Some (r2, st')"
      using h uc by (auto simp: run_with_done_def split: option.splits settled.splits)
    then show ?thesis using cb sc_trans [OF sc a] by blast
  qed
qed

lemma run_runner_rel:
  assumes sc: "step_closed R cfg" and hr: "hooks_related R rec"
    and h: "run_runner rec e name fnName args rv st = Some (r, st')"
  shows "R st st'"
proof -
  let ?s1 = "emit (LogStarting name) st"
  have a: "R st ?s1" using sc_emit [OF sc] by simp
  have cb: "\<forall>err s r s'. done_cb rec name fnName args err s = Some (r, s') \<longrightarrow> R s s'"
    using done_cb_rel [OF sc hr] by blast
  have dr: "\<And>err s r s'. dropped (done_cb rec name fnName args err s) = Some (r, s') \<Longrightarrow> R s s'"
    using cb dropped_Some by blast
  have val: "R ?s1 st'" if v: "rv = RValue v \<or> rv = RPromise (Inr v)" for v
  proof (cases v)
    case (JFun g n)
    show ?thesis
    proof (cases "n = 0")
      case True
      obtain c s2 where c: "call_value e (JFun g n) [JArr []] ?s1 = (c, s2)"
        by (cases "call_value e (JFun g n) [JArr []] ?s1")
      then have "dropped (done_cb rec name fnName args (caught c) s2) = Some (r, st')"
        using h v JFun True by (auto simp: run_runner_def Let_def simp del: call_value.simps)
      then have "R s2 st'" using dr by blast
      then show ?thesis using call_value_rel [OF sc c] sc_trans [OF sc] by blast
    next
      case False
      then have "run_with_done e g (done_cb rec name fnName args) ?s1 = Some (r, st')"
        using h v JFun by (auto simp: run_runner_def Let_def)
      then show ?thesis using run_with_done_rel [OF sc cb] by blast
    qed
  qed (use v h dr in \<open>auto simp: run_runner_def Let_def\<close>)
  have "R ?s1 st'"
  proof (cases rv)
    case (RValue v)
    then show ?thesis using val by blast
  next
    case (RPromise p)
    show ?thesis
    proof (cases p)
      case (Inl x)
      then have "st' = ?s1" using h RPromise by (simp add: run_runner_def Let_def)
      then show ?thesis using sc_refl [OF sc] by simp
    next
      case (Inr v)
      then show ?thesis using val RPromise by blast
    qed
  next
    case (RWrapper fn)
    obtain c s2 where c: "call_task e fn args ?s1 = (c, s2)" by (cases "call_task e fn args ?s1")
    then have "dropped (done_cb rec name fnName args (caught c) s2) = Some (r, st')"
      using h RWrapper by (auto simp: run_runner_def Let_def)
    then have "R s2 st'" using dr by blast
    then show ?thesis using call_task_rel [OF sc c] sc_trans [OF sc] by blast
  qed
  then show ?thesis using sc_trans [OF sc a] by blast
qed

lemma run_found_rel:
  assumes sc: "step_closed R cfg" and hr: "hooks_related R rec"
    and h: "run_found rec e cfg fn name fnName args st = Some (r, st')"
  shows "R st st'"
proof -
  obtain d s2 where d: "dispatch e cfg fn name args st = (d, s2)"
    by (cases "dispatch e cfg fn name args st")
  have a: "R st s2" using dispatch_rel [OF sc d] .
  show ?thesis
  proof (cases d)
    case (Inl x)
    then have "st' = s2" using h d by (simp add: run_found_def)
    then show ?thesis using a by simp
  next
    case (Inr rv)
    then obtain r3 s3 where p: "run_hook rec fnName ''pre'' args s2 = Some (r3, s3)"
      using h d by (auto simp: run_found_def split: option.splits)
    have b: "R s2 s3" using run_hook_rel [OF sc hr p] .
    show ?thesis
    proof (cases r3)
      case Resolved
      then have "run_runner rec e name fnName args rv s3 = Some (r, st')"
        using h d Inr p by (simp add: run_found_def)
      then have "R s3 st'" using run_runner_rel [OF sc hr] by blast
      then show ?thesis using a b sc_trans [OF sc] by blast
    next
      case (Rejected x)
      then have "st' = s3" using h d Inr p by (simp add: run_found_def)
      then show ?thesis using a b sc_trans [OF sc] by blast
    qed
  qed
qed

lemma execute_body_rel:
  assumes sc: "step_closed R cfg" and hr: "hooks_related R rec"
    and h: "execute_body rec e cfg name args st = Some (r, st')"
  shows "R st st'"
proof (cases "select_fn e cfg name args st")
  case (Inl a)
  obtain x s1 where a: "a = (x, s1)" by (cases a)
  then have "st' = s1" using h Inl by (simp add: execute_body_def)
  then show ?thesis using select_fn_rel(2) [OF sc] Inl a by blast
next
  case (Inr b)
  obtain fn fnName ex s1 where b: "b = (fn, fnName, ex, s1)" by (cases b)
  have s: "select_fn e cfg name args st = Inr (fn, fnName, ex, s1)" using Inr b by simp
  have a: "R st s1" using select_fn_rel(1) [OF sc s] .
  show ?thesis
  proof (cases ex)
    case True
    then have "run_found rec e cfg fn name fnName args s1 = Some (r, st')"
      using h s by (simp add: execute_body_def)
    then have "R s1 st'" using run_found_rel [OF sc hr] by blast
    then show ?thesis using a sc_trans [OF sc] by blast
  next
    case False
    then have st': "st' = emit (LogNotFound name) s1" using h s by (simp add: execute_body_def)
    have "typeof (runner cfg) \<noteq> ''function''"
      using select_fn_callable_runner [of cfg e name args st] s False by auto
    then have "R s1 (emit (LogNotFound name) s1)" using sc unfolding step_closed_def by blast
    then show ?thesis using a st' sc_trans [OF sc] by blast
  qed
qed

lemma execute_rel:
  assumes sc: "step_closed R cfg"
  shows "execute e cfg k name args st = Some (r, st') \<Longrightarrow> R st st'"
proof (induction k arbitrary: name args st r st')
  case 0
  then show ?case by simp
next
  case (Suc k)
  have hr: "hooks_related R (execute e cfg k)"
    unfolding hooks_related_def using Suc.IH by blast
  show ?case using execute_body_rel [OF sc hr] Suc.prems by simp
qed

lemma frame_step_closed:
  "step_closed (\<lambda>s s'. no_mapping_default (JObj (ns s)) \<longrightarrow> ns s' = ns s) cfg"
  unfolding step_closed_def
  using resolveTask_frame by (auto simp del: no_mapping_default.simps)

lemma select_fn_default_runner:
  assumes "typeof (runner cfg) \<noteq> ''function''" "isObject (runner cfg)"
    and "typeof (get_prop (runner cfg) ''default'') = ''function''"
    and "typeof (get_prop (runner cfg) ''taskExists'') \<noteq> ''function''"
  shows "select_fn e cfg name args st =
           Inr (get_prop (runner cfg) ''default'', name, True,
                st\<lparr>ns := snd (resolveTask (ns st) (KeyStr name) '':'')\<rparr>)"
  using assms use_default_function [of "get_prop (runner cfg) ''default''" name True]
  by (simp add: select_fn_def Let_def choose_fn_def)

lemma select_fn_taskExists:
  assumes "typeof (runner cfg) \<noteq> ''function''" "isObject (runner cfg)"
    and "typeof (get_prop (runner cfg) ''default'') = ''function''"
    and "typeof (get_prop (runner cfg) ''taskExists'') = ''function''"
    and st1: "st1 = st\<lparr>ns := snd (resolveTask (ns st) (KeyStr name) '':'')\<rparr>"
  shows "select_fn e cfg name args st =
           (case call_value e (get_prop (runner cfg) ''taskExists'')
                   [JObj (ns st1), JStr name, args, options cfg] st1 of
              (Return v, st2) \<Rightarrow> Inr (get_prop (runner cfg) ''default'', name, truthy v, st2)
            | (Throw x, st2) \<Rightarrow> Inl (x, st2)
            | (Fulfilled v, st2) \<Rightarrow> Inr (get_prop (runner cfg) ''default'', name, True, st2)
            | (RejectedWith x, st2) \<Rightarrow> Inr (get_prop (runner cfg) ''default'', name, True, st2))"
proof -
  let ?r = "resolveTask (ns st) (KeyStr name) '':''"
  let ?call = "call_value e (get_prop (runner cfg) ''taskExists'')
                   [JObj (snd ?r), JStr name, args, options cfg] (st\<lparr>ns := snd ?r\<rparr>)"
  obtain c s2 where c: "?call = (c, s2)" by (cases ?call)
  have u: "\<And>b. use_default name (get_prop (runner cfg) ''default'') b
             = (get_prop (runner cfg) ''default'', name, b)"
    using assms(3) by (rule use_default_function)
  show ?thesis
    using assms(1-4) c u unfolding st1
    by (cases c) (simp_all add: select_fn_def Let_def choose_fn_def del: call_value.simps)
qed

lemma select_fn_no_runner:
  assumes "typeof (runner cfg) \<noteq> ''function''"
    and "\<not> (isObject (runner cfg) \<and> typeof (get_prop (runner cfg) ''default'') = ''function'')"
    and "resolveTask (ns st) (KeyStr name) '':'' = (fn0, ns1)"
  shows "select_fn e cfg name args st =
           (case use_default name fn0 (typeof fn0 = ''function'') of
              (fn, fnName, ex) \<Rightarrow> Inr (fn, fnName, ex, st\<lparr>ns := ns1\<rparr>))"
  using assms by (auto simp: select_fn_def Let_def choose_fn_def)

lemma not_found_step_closed:
  "typeof (runner cfg) = ''function'' \<Longrightarrow>
     step_closed (\<lambda>s s'. \<forall>n. LogNotFound n \<in> set (trace s') \<longrightarrow> LogNotFound n \<in> set (trace s)) cfg"
  unfolding step_closed_def by auto

section \<open>One level of an execution\<close>

lemma dispatch_plain:
  "n \<noteq> 3 \<Longrightarrow> n \<noteq> 4 \<Longrightarrow> dispatch e cfg (JFun f n) name args st = (Inr (RWrapper (JFun f n)), st)"
  by (simp add: dispatch_def)

lemma dispatch_three:
  "dispatch e cfg (JFun f 3) name args st =
     produced (call_fn e f [JObj (ns st), JStr name, args],
               st\<lparr>trace := trace st @ [Called f [JObj (ns st), JStr name, args]]\<rparr>)"
  by (simp add: dispatch_def emit_def)

lemma dispatch_four:
  "dispatch e cfg (JFun f 4) name args st =
     (if isObject (options cfg) \<and> object_keys (options cfg) \<noteq> []
      then produced (call_fn e f [JObj (ns st), JStr name, args, options cfg],
               st\<lparr>trace := trace st @ [Called f [JObj (ns st), JStr name, args, options cfg]]\<rparr>)
      else produced (call_fn e f [JObj (ns st), JStr name, args],
               st\<lparr>trace := trace st @ [Called f [JObj (ns st), JStr name, args]]\<rparr>))"
  by (simp add: dispatch_def emit_def)

lemma done_cb_trace:
  "done_cb rec name fnName args err st =
     run_hook rec fnName ''post'' args (st\<lparr>trace := trace st @ logged err @ [LogFinished name]\<rparr>)"
  by (cases err) (simp_all add: done_cb_def logged_def emit_def Let_def)

lemma run_runner_wrapper:
  "run_runner rec e name fnName args (RWrapper (JFun f n)) st =
     dropped (run_hook rec fnName ''post'' args
       (st\<lparr>trace := trace st @ [LogStarting name, Called f [args]]
                        @ logged (caught (call_fn e f [args])) @ [LogFinished name]\<rparr>))"
  by (simp add: run_runner_def call_task_def done_cb_trace emit_def Let_def)

lemma run_runner_not_callable:
  assumes "rv = RValue v \<or> rv = RPromise (Inr v)" "typeof v \<noteq> ''function''"
  shows "run_runner rec e name fnName args rv st =
     dropped (run_hook rec fnName ''post'' args
       (st\<lparr>trace := trace st @
          [LogStarting name,
           LogError (ErrorObj (''Expected return value of runner function to be a function, got ''
                                 @ (if v = JNull then ''null'' else typeof v))),
           LogFinished name]\<rparr>))"
  using assms
  by (cases v) (auto simp: run_runner_def done_cb_trace logged_def emit_def Let_def)

lemma execute_found:
  "select_fn e cfg name args st = Inr (fn, fnName, True, st1) \<Longrightarrow>
     execute e cfg (Suc k) name args st = run_found (execute e cfg k) e cfg fn name fnName args st1"
  by (simp add: execute_body_def)

lemma execute_plain:
  assumes "select_fn e cfg name args st = Inr (JFun f n, fnName, True, st1)" "n \<noteq> 3" "n \<noteq> 4"
  shows "execute e cfg (Suc k) name args st =
     (case run_hook (execute e cfg k) fnName ''pre'' args st1 of
        None \<Rightarrow> None
      | Some (Rejected x, st3) \<Rightarrow> Some (Rejected x, st3)
      | Some (Resolved, st3) \<Rightarrow>
          dropped (run_hook (execute e cfg k) fnName ''post'' args
            (st3\<lparr>trace := trace st3 @ [LogStarting name, Called f [args]]
                               @ logged (caught (call_fn e f [args])) @ [LogFinished name]\<rparr>)))"
proof -
  have "execute e cfg (Suc k) name args st
          = run_found (execute e cfg k) e cfg (JFun f n) name fnName args st1"
    using assms(1) by (rule execute_found)
  then show ?thesis
    by (simp add: run_found_def dispatch_plain [OF assms(2,3)] run_runner_wrapper
        split: option.splits settled.splits prod.splits)
qed

lemma bound_step_closed:
  "step_closed (\<lambda>s s'. fields_bound (ns s') \<le> fields_bound (ns s)) cfg"
  unfolding step_closed_def using resolveTask_ns_bound by auto

lemma execute_hooks_return:
  "M \<le> k + length name \<Longrightarrow> hooks_return (execute e cfg k) (length name) M"
  unfolding hooks_return_def
proof (intro allI impI)
  fix hn :: string and a :: jsval and s :: state
  assume h: "M \<le> k + length name" "length name < length hn" "length hn \<le> M" "fields_bound (ns s) \<le> M"
  then obtain j where j: "k = Suc j" by (cases k) auto
  have "M < Suc j + length hn" using h j by simp
  then show "\<exists>r s'. execute e cfg k hn a s = Some (r, s') \<and> fields_bound (ns s') \<le> M"
    using execute_total_aux [OF h(4), of j hn e cfg a] j by simp
qed

lemma run_hook_returns:
  assumes "fields_bound (ns st) \<le> k" "prefix \<noteq> []"
  shows "\<exists>r st'. run_hook (execute e cfg k) fnName prefix args st = Some (r, st')
                 \<and> fields_bound (ns st') \<le> k"
proof -
  have "hooks_return (execute e cfg k) (length fnName) k"
    by (rule execute_hooks_return) simp
  then show ?thesis
    using run_hook_total [where rec = "execute e cfg k" and L = "length fnName" and M = k
        and fnName = fnName and prefix = prefix and st = st and args = args] assms
    by simp
qed

lemma run_hook_bound:
  "run_hook (execute e cfg k) fnName prefix args st = Some (r, st')
     \<Longrightarrow> fields_bound (ns st') \<le> fields_bound (ns st)"
proof -
  have "hooks_related (\<lambda>s s'. fields_bound (ns s') \<le> fields_bound (ns s)) (execute e cfg k)"
    unfolding hooks_related_def using execute_rel [OF bound_step_closed] by blast
  then show "run_hook (execute e cfg k) fnName prefix args st = Some (r, st')
     \<Longrightarrow> fields_bound (ns st') \<le> fields_bound (ns st)"
    using run_hook_rel [OF bound_step_closed] by blast
qed

lemma select_fn_bound:
  "select_fn e cfg name args st = Inr (fn, fnName, ex, st1)
     \<Longrightarrow> fields_bound (ns st1) \<le> fields_bound (ns st)"
  using select_fn_rel(1) [OF bound_step_closed] by blast

lemma run_hook_unfold:
  "run_hook rec fnName prefix args st =
     (if truthy (fst (resolveTask (ns st) (KeyStr (getFnName fnName prefix '':'')) '':''))
      then rec (getFnName fnName prefix '':'') args
             (st\<lparr>ns := snd (resolveTask (ns st) (KeyStr (getFnName fnName prefix '':'')) '':'')\<rparr>)
      else Some (Resolved,
             st\<lparr>ns := snd (resolveTask (ns st) (KeyStr (getFnName fnName prefix '':'')) '':'')\<rparr>))"
  by (simp add: run_hook_def Let_def case_prod_beta)

lemma dropped_case:
  "dropped res = (case res of None \<Rightarrow> None | Some (r, s) \<Rightarrow> Some (Resolved, s))"
  by (cases res) auto

lemma run_runner_produced:
  assumes "rv = RValue v \<or> rv = RPromise (Inr v)"
  shows "run_runner rec e name fnName args rv st =
     (case v of
        JFun g m \<Rightarrow>
          if m = 0
          then dropped (done_cb rec name fnName args (caught (call_fn e g [JArr []]))
                 (st\<lparr>trace := trace st @ [LogStarting name, Called g [JArr []]]\<rparr>))
          else run_with_done e g (done_cb rec name fnName args)
                 (st\<lparr>trace := trace st @ [LogStarting name]\<rparr>)
      | _ \<Rightarrow>
          dropped (done_cb rec name fnName args
            (Some (ErrorObj (''Expected return value of runner function to be a function, got ''
                               @ (if v = JNull then ''null'' else typeof v))))
            (st\<lparr>trace := trace st @ [LogStarting name]\<rparr>)))"
  using assms by (cases v) (auto simp: run_runner_def emit_def Let_def)

lemma run_runner_rejected:
  "run_runner rec e name fnName args (RPromise (Inl x)) st
     = Some (Rejected x, st\<lparr>trace := trace st @ [LogStarting name]\<rparr>)"
  by (simp add: run_runner_def emit_def)

text \<open>The definitions that a run on a concrete namespace unfolds.\<close>

lemmas engine_defs =
  runTask_def execute_body_def select_fn_def choose_fn_def use_default_def run_found_def
  dispatch_def run_hook_def run_runner_def run_with_done_def call_task_def done_cb_def emit_def
  getFnName_def resolveTask_def split_def walk_def walk_step_def validTaskValue_def
  flatten_default_def fields_of_def logged_def Let_def

text \<open>Fuel written as a numeral.\<close>

lemma execute_numeral:
  "execute e cfg (numeral v) name args st
     = execute_body (execute e cfg (pred_numeral v)) e cfg name args st"
  by (simp add: numeral_eq_Suc)

section \<open>Claims\<close>

text \<open>
  C9. The hook-name deriver splits the task name on the separator, prefixes only the last
  segment and rejoins; the segments before it are left as they are. Every name is either a
  single segment \<open>l\<close> or \<open>q:l\<close> with no separator in \<open>l\<close>. In particular
  \<^verbatim>\<open>hookName("a:b", "pre")\<close> is \<^verbatim>\<open>"a:preb"\<close> and \<^verbatim>\<open>hookName("task", "post")\<close> is
  \<^verbatim>\<open>"posttask"\<close>.
\<close>

theorem hook_name_prefixes_last_segment:
  "CHR '':'' \<notin> set l \<Longrightarrow>
     getFnName l pre '':'' = pre @ l \<and>
     getFnName (q @ '':'' @ l) pre '':'' = q @ '':'' @ pre @ l \<and>
     getFnName ''a:b'' ''pre'' '':'' = ''a:preb'' \<and>
     getFnName ''task'' ''post'' '':'' = ''posttask''"
proof -
  assume a: "CHR '':'' \<notin> set l"
  have 1: "getFnName l pre '':'' = pre @ l" using a by (rule getFnName_single)
  have 2: "getFnName (q @ '':'' @ l) pre '':'' = q @ '':'' @ pre @ l"
    using getFnName_nested [OF a, of q pre] by simp
  have 3: "getFnName ''a:b'' ''pre'' '':'' = ''a:preb''"
    using getFnName_nested [of "CHR '':''" "''b''" "''a''" "''pre''"] by simp
  have 4: "getFnName ''task'' ''post'' '':'' = ''posttask''"
    using getFnName_single [of "CHR '':''" "''task''" "''post''"] by simp
  show ?thesis using 1 2 3 4 by blast
qed

theorem hook_name_prefixes_last_segment_witness:
  "CHR '':'' \<notin> set ''sub'' \<and>
   getFnName ''sub'' ''pre'' '':'' = ''presub'' \<and>
   getFnName ''build:sub'' ''pre'' '':'' = ''build:presub''"
  using hook_name_prefixes_last_segment [of "''sub''" "''pre''" "''build''"] by simp

text \<open>
  C7 (amended). In a namespace where no mapping holds a mapping under its \<^verbatim>\<open>default\<close> key,
  neither \<^verbatim>\<open>resolveTask\<close> nor \<^verbatim>\<open>runTask\<close> changes any node: the namespace after the call
  is the namespace before it, and \<^verbatim>\<open>runTask\<close> returns once the fuel exceeds the size of the
  namespace.
\<close>

theorem namespace_unchanged_without_mapping_default:
  "no_mapping_default (JObj pinefile) \<Longrightarrow>
     snd (resolveTask pinefile key sep) = pinefile \<and>
     (\<exists>r st'. runTask e cfg (Suc (fields_bound pinefile)) pinefile name args = Some (r, st')
              \<and> ns st' = pinefile) \<and>
     (\<forall>k r st'. runTask e cfg k pinefile name args = Some (r, st') \<longrightarrow> ns st' = pinefile)"
proof -
  assume a: "no_mapping_default (JObj pinefile)"
  let ?args = "if args = JUndefined then JObj [] else args"
  let ?st = "\<lparr>ns = pinefile, trace = []\<rparr>"
  have fr: "ns st' = pinefile" if "execute e cfg k name ?args ?st = Some (r, st')" for k r st'
    using execute_rel [OF frame_step_closed that] a by simp
  have "fields_bound (ns ?st) \<le> fields_bound pinefile" by simp
  then obtain r st' where ex: "execute e cfg (Suc (fields_bound pinefile)) name ?args ?st = Some (r, st')"
    using execute_total by blast
  have 1: "snd (resolveTask pinefile key sep) = pinefile" using a by (rule resolveTask_frame)
  have 2: "\<exists>r st'. runTask e cfg (Suc (fields_bound pinefile)) pinefile name args = Some (r, st')
              \<and> ns st' = pinefile"
    using ex fr [OF ex] by (auto simp: runTask_def)
  have 3: "\<forall>k r st'. runTask e cfg k pinefile name args = Some (r, st') \<longrightarrow> ns st' = pinefile"
    using fr by (auto simp: runTask_def)
  show ?thesis using 1 2 3 by blast
qed

theorem namespace_unchanged_witness:
  "no_mapping_default (JObj [(''deploy'', JObj [(''_'', JFun 1 1)])]) \<and>
   snd (resolveTask [(''deploy'', JObj [(''_'', JFun 1 1)])] (KeyStr ''deploy'') '':'')
     = [(''deploy'', JObj [(''_'', JFun 1 1)])]"
  using namespace_unchanged_without_mapping_default
    [of "[(''deploy'', JObj [(''_'', JFun 1 1)])]" "KeyStr ''deploy''" "'':''"]
  by simp

text \<open>
  The claim as stated fails: line 53 writes to the namespace. Resolving \<^verbatim>\<open>a\<close> in
  \<^verbatim>\<open>{ a: { default: { _: f } } }\<close> leaves \<^verbatim>\<open>{ a: { default: f } }\<close>, and so does running it.
\<close>

theorem namespace_written_counterexample:
  "snd (resolveTask [(''a'', JObj [(''default'', JObj [(''_'', JFun 1 1)])])] (KeyStr ''a'') '':'')
     = [(''a'', JObj [(''default'', JFun 1 1)])] \<and>
   runTask \<lparr>call_fn = (\<lambda>f as. Return JUndefined), call_with_done = (\<lambda>g. (NoDone, Return JUndefined))\<rparr>
       \<lparr>runner = JUndefined, options = JUndefined\<rparr> 1
       [(''a'', JObj [(''default'', JObj [(''_'', JFun 1 1)])])] ''a'' (JObj [])
     = Some (Resolved,
         \<lparr>ns = [(''a'', JObj [(''default'', JFun 1 1)])],
          trace = [LogStarting ''a'', Called 1 [JObj []], LogFinished ''a'']\<rparr>)"
  by (simp add: runTask_def execute_body_def select_fn_def choose_fn_def use_default_def
      run_found_def dispatch_def run_hook_def run_runner_def call_task_def done_cb_def
      emit_def getFnName_def
      resolveTask_def split_def walk_def walk_step_def validTaskValue_def
      flatten_default_def fields_of_def Let_def)

text \<open>
  C8. Runner selection is first match wins. A configured runner that is callable is selected
  and marked found whatever the namespace resolves to under the name. Otherwise a runner
  object with a callable \<^verbatim>\<open>default\<close> is used: when it has a callable \<^verbatim>\<open>taskExists\<close>, that
  predicate is called with the namespace, the name, the arguments and the options, and its
  result decides "found" (a throw rejects the execution); when it has none, the default
  counts as found. Otherwise the resolved task is used and found when it is callable.
  \<open>st1\<close> is the state after the name has been resolved.
\<close>

theorem runner_selection_order:
  "st1 = st\<lparr>ns := snd (resolveTask (ns st) (KeyStr name) '':'')\<rparr> \<Longrightarrow>
   (typeof (runner cfg) = ''function'' \<longrightarrow>
      select_fn e cfg name args st = Inr (runner cfg, name, True, st1)) \<and>
   (typeof (runner cfg) \<noteq> ''function'' \<and> isObject (runner cfg)
      \<and> typeof (get_prop (runner cfg) ''default'') = ''function'' \<longrightarrow>
      (typeof (get_prop (runner cfg) ''taskExists'') \<noteq> ''function'' \<longrightarrow>
         select_fn e cfg name args st = Inr (get_prop (runner cfg) ''default'', name, True, st1)) \<and>
      (typeof (get_prop (runner cfg) ''taskExists'') = ''function'' \<longrightarrow>
         select_fn e cfg name args st =
           (case call_value e (get_prop (runner cfg) ''taskExists'')
                   [JObj (ns st1), JStr name, args, options cfg] st1 of
              (Return v, st2) \<Rightarrow> Inr (get_prop (runner cfg) ''default'', name, truthy v, st2)
            | (Throw x, st2) \<Rightarrow> Inl (x, st2)
            | (Fulfilled v, st2) \<Rightarrow> Inr (get_prop (runner cfg) ''default'', name, True, st2)
            | (RejectedWith x, st2) \<Rightarrow> Inr (get_prop (runner cfg) ''default'', name, True, st2)))) \<and>
   (typeof (runner cfg) \<noteq> ''function''
      \<and> \<not> (isObject (runner cfg) \<and> typeof (get_prop (runner cfg) ''default'') = ''function'')
      \<and> typeof (fst (resolveTask (ns st) (KeyStr name) '':'')) = ''function'' \<longrightarrow>
      select_fn e cfg name args st = Inr (fst (resolveTask (ns st) (KeyStr name) '':''), name, True, st1))"
proof -
  assume st1: "st1 = st\<lparr>ns := snd (resolveTask (ns st) (KeyStr name) '':'')\<rparr>"
  have a: "typeof (runner cfg) = ''function'' \<longrightarrow>
      select_fn e cfg name args st = Inr (runner cfg, name, True, st1)"
    using select_fn_callable_runner [of cfg e name args st] st1 by simp
  have b1: "typeof (runner cfg) \<noteq> ''function'' \<and> isObject (runner cfg)
      \<and> typeof (get_prop (runner cfg) ''default'') = ''function'' \<longrightarrow>
      (typeof (get_prop (runner cfg) ''taskExists'') \<noteq> ''function'' \<longrightarrow>
         select_fn e cfg name args st = Inr (get_prop (runner cfg) ''default'', name, True, st1))"
    using select_fn_default_runner [of cfg e name args st] st1 by simp
  have b2: "typeof (runner cfg) \<noteq> ''function'' \<and> isObject (runner cfg)
      \<and> typeof (get_prop (runner cfg) ''default'') = ''function'' \<longrightarrow>
      (typeof (get_prop (runner cfg) ''taskExists'') = ''function'' \<longrightarrow>
         select_fn e cfg name args st =
           (case call_value e (get_prop (runner cfg) ''taskExists'')
                   [JObj (ns st1), JStr name, args, options cfg] st1 of
              (Return v, st2) \<Rightarrow> Inr (get_prop (runner cfg) ''default'', name, truthy v, st2)
            | (Throw x, st2) \<Rightarrow> Inl (x, st2)
            | (Fulfilled v, st2) \<Rightarrow> Inr (get_prop (runner cfg) ''default'', name, True, st2)
            | (RejectedWith x, st2) \<Rightarrow> Inr (get_prop (runner cfg) ''default'', name, True, st2)))"
    using select_fn_taskExists [of cfg st1 st name e args] st1 by blast
  have c: "typeof (runner cfg) \<noteq> ''function''
      \<and> \<not> (isObject (runner cfg) \<and> typeof (get_prop (runner cfg) ''default'') = ''function'')
      \<and> typeof (fst (resolveTask (ns st) (KeyStr name) '':'')) = ''function'' \<longrightarrow>
      select_fn e cfg name args st = Inr (fst (resolveTask (ns st) (KeyStr name) '':''), name, True, st1)"
  proof (intro impI, elim conjE)
    assume h: "typeof (runner cfg) \<noteq> ''function''"
      "\<not> (isObject (runner cfg) \<and> typeof (get_prop (runner cfg) ''default'') = ''function'')"
      "typeof (fst (resolveTask (ns st) (KeyStr name) '':'')) = ''function''"
    have "resolveTask (ns st) (KeyStr name) '':'' = (fst (resolveTask (ns st) (KeyStr name) '':''), snd (resolveTask (ns st) (KeyStr name) '':''))"
      by simp
    from select_fn_no_runner [OF h(1,2) this, of e args]
    show "select_fn e cfg name args st = Inr (fst (resolveTask (ns st) (KeyStr name) '':''), name, True, st1)"
      using use_default_function [OF h(3), of name True] h(3) st1 by simp
  qed
  show ?thesis using a b1 b2 c by blast
qed

theorem runner_selection_order_witness:
  "select_fn \<lparr>call_fn = (\<lambda>f as. Return JUndefined), call_with_done = (\<lambda>g. (NoDone, Return JUndefined))\<rparr>
       \<lparr>runner = JFun 9 4, options = JObj []\<rparr> ''build'' (JObj [])
       \<lparr>ns = [(''build'', JFun 1 1)], trace = []\<rparr>
     = Inr (JFun 9 4, ''build'', True, \<lparr>ns = [(''build'', JFun 1 1)], trace = []\<rparr>) \<and>
   select_fn \<lparr>call_fn = (\<lambda>f as. Return JUndefined), call_with_done = (\<lambda>g. (NoDone, Return JUndefined))\<rparr>
       \<lparr>runner = JObj [(''default'', JFun 9 3)], options = JObj []\<rparr> ''build'' (JObj [])
       \<lparr>ns = [(''build'', JFun 1 1)], trace = []\<rparr>
     = Inr (JFun 9 3, ''build'', True, \<lparr>ns = [(''build'', JFun 1 1)], trace = []\<rparr>) \<and>
   select_fn \<lparr>call_fn = (\<lambda>f as. Return JUndefined), call_with_done = (\<lambda>g. (NoDone, Return JUndefined))\<rparr>
       \<lparr>runner = JUndefined, options = JObj []\<rparr> ''build'' (JObj [])
       \<lparr>ns = [(''build'', JFun 1 1)], trace = []\<rparr>
     = Inr (JFun 1 1, ''build'', True, \<lparr>ns = [(''build'', JFun 1 1)], trace = []\<rparr>) \<and>
   select_fn \<lparr>call_fn = (\<lambda>f as. Return JUndefined), call_with_done = (\<lambda>g. (NoDone, Return JUndefined))\<rparr>
       \<lparr>runner = JObj [(''default'', JFun 9 3), (''taskExists'', JFun 7 4)], options = JObj []\<rparr>
       ''build'' (JObj []) \<lparr>ns = [(''build'', JFun 1 1)], trace = []\<rparr>
     = Inr (JFun 9 3, ''build'', False,
            \<lparr>ns = [(''build'', JFun 1 1)],
             trace = [Called 7 [JObj [(''build'', JFun 1 1)], JStr ''build'', JObj [], JObj []]]\<rparr>)"
proof -
  let ?st = "\<lparr>ns = [(''build'', JFun 1 1)], trace = []\<rparr>"
  let ?e = "\<lparr>call_fn = (\<lambda>f as. Return JUndefined), call_with_done = (\<lambda>g. (NoDone, Return JUndefined))\<rparr>"
  have r: "resolveTask [(''build'', JFun 1 1)] (KeyStr ''build'') '':'' = (JFun 1 1, [(''build'', JFun 1 1)])"
    by (simp add: resolveTask_def split_def walk_def walk_step_def validTaskValue_def
        flatten_default_def fields_of_def Let_def)
  have s: "?st = ?st\<lparr>ns := snd (resolveTask (ns ?st) (KeyStr ''build'') '':'')\<rparr>" using r by simp
  show ?thesis
    using runner_selection_order [OF s, of "\<lparr>runner = JFun 9 4, options = JObj []\<rparr>" ?e "JObj []"]
      runner_selection_order [OF s, of "\<lparr>runner = JObj [(''default'', JFun 9 3)], options = JObj []\<rparr>" ?e "JObj []"]
      runner_selection_order [OF s, of "\<lparr>runner = JUndefined, options = JObj []\<rparr>" ?e "JObj []"]
      runner_selection_order [OF s, of "\<lparr>runner = JObj [(''default'', JFun 9 3), (''taskExists'', JFun 7 4)],
                                          options = JObj []\<rparr>" ?e "JObj []"]
      r
    by (simp add: emit_def)
qed

text \<open>
  C2. When no function is found (\<^verbatim>\<open>fnExists\<close> is false after lines 101-125), the execution
  logs "Task not found" and its promise is fulfilled; nothing else happens after selection,
  so no hook is run. This is the case in particular when no configured runner applies and
  the resolved task is neither callable nor a mapping with a callable default.
\<close>

theorem task_not_found_resolves:
  "(select_fn e cfg name args st = Inr (fn, fnName, False, st1) \<longrightarrow>
      execute e cfg (Suc k) name args st
        = Some (Resolved, st1\<lparr>trace := trace st1 @ [LogNotFound name]\<rparr>)) \<and>
   (typeof (runner cfg) \<noteq> ''function''
      \<and> \<not> (isObject (runner cfg) \<and> typeof (get_prop (runner cfg) ''default'') = ''function'')
      \<and> resolveTask (ns st) (KeyStr name) '':'' = (fn0, ns1)
      \<and> typeof fn0 \<noteq> ''function''
      \<and> \<not> (isObject fn0 \<and> typeof (get_prop fn0 ''default'') = ''function'') \<longrightarrow>
      execute e cfg (Suc k) name args st
        = Some (Resolved, st\<lparr>ns := ns1, trace := trace st @ [LogNotFound name]\<rparr>))"
proof -
  have 1: "execute e cfg (Suc k) name args st
        = Some (Resolved, st1\<lparr>trace := trace st1 @ [LogNotFound name]\<rparr>)"
    if "select_fn e cfg name args st = Inr (fn, fnName, False, st1)" for fn fnName st1
    using that by (simp add: execute_body_def emit_def)
  have 2: "execute e cfg (Suc k) name args st
        = Some (Resolved, st\<lparr>ns := ns1, trace := trace st @ [LogNotFound name]\<rparr>)"
    if h: "typeof (runner cfg) \<noteq> ''function''"
      "\<not> (isObject (runner cfg) \<and> typeof (get_prop (runner cfg) ''default'') = ''function'')"
      "resolveTask (ns st) (KeyStr name) '':'' = (fn0, ns1)"
      "typeof fn0 \<noteq> ''function''"
      "\<not> (isObject fn0 \<and> typeof (get_prop fn0 ''default'') = ''function'')"
  proof -
    have "\<exists>fn fnName. use_default name fn0 False = (fn, fnName, False)"
      by (cases "isObject fn0 \<and> truthy (get_prop fn0 ''default'')")
        (use h(5) in \<open>auto simp: use_default_def\<close>)
    then obtain fn fnName where u: "use_default name fn0 False = (fn, fnName, False)" by blast
    have "select_fn e cfg name args st = Inr (fn, fnName, False, st\<lparr>ns := ns1\<rparr>)"
      using select_fn_no_runner [OF h(1,2,3), of e args] h(4) u by simp
    from 1 [OF this] show ?thesis by simp
  qed
  show ?thesis using 1 2 by blast
qed

theorem task_not_found_resolves_witness:
  "runTask
       \<lparr>call_fn = (\<lambda>f as. Return JUndefined), call_with_done = (\<lambda>g. (NoDone, Return JUndefined))\<rparr>
       \<lparr>runner = JUndefined, options = JUndefined\<rparr> (Suc 0)
       [(''build'', JFun 1 1), (''ns'', JObj [(''sub'', JFun 2 1)])] ''missing'' (JObj [])
     = Some (Resolved, \<lparr>ns = [(''build'', JFun 1 1), (''ns'', JObj [(''sub'', JFun 2 1)])],
                        trace = [LogNotFound ''missing'']\<rparr>) \<and>
   runTask
       \<lparr>call_fn = (\<lambda>f as. Return JUndefined), call_with_done = (\<lambda>g. (NoDone, Return JUndefined))\<rparr>
       \<lparr>runner = JUndefined, options = JUndefined\<rparr> (Suc 0)
       [(''build'', JFun 1 1), (''ns'', JObj [(''sub'', JFun 2 1)])] ''ns'' (JObj [])
     = Some (Resolved, \<lparr>ns = [(''build'', JFun 1 1), (''ns'', JObj [(''sub'', JFun 2 1)])],
                        trace = [LogNotFound ''ns'']\<rparr>)"
proof -
  let ?p = "[(''build'', JFun 1 1), (''ns'', JObj [(''sub'', JFun 2 1)])]"
  let ?cfg = "\<lparr>runner = JUndefined, options = JUndefined\<rparr>"
  let ?st = "\<lparr>ns = ?p, trace = []\<rparr>"
  let ?e = "\<lparr>call_fn = (\<lambda>f as. Return JUndefined), call_with_done = (\<lambda>g. (NoDone, Return JUndefined))\<rparr>"
  have r1: "resolveTask ?p (KeyStr ''missing'') '':'' = (JBool False, ?p)"
    by (simp add: resolveTask_def split_def walk_def walk_step_def validTaskValue_def Let_def)
  have r2: "resolveTask ?p (KeyStr ''ns'') '':'' = (JObj [(''sub'', JFun 2 1)], ?p)"
    by (simp add: resolveTask_def split_def walk_def walk_step_def validTaskValue_def
        flatten_default_def fields_of_def Let_def)
  have a: "execute ?e ?cfg (Suc 0) ''missing'' (JObj []) ?st
             = Some (Resolved, ?st\<lparr>ns := ?p, trace := trace ?st @ [LogNotFound ''missing'']\<rparr>)"
    using task_not_found_resolves [of ?e ?cfg "''missing''" "JObj []" ?st _ _ _ 0 "JBool False" ?p] r1
    by simp
  have b: "execute ?e ?cfg (Suc 0) ''ns'' (JObj []) ?st
             = Some (Resolved, ?st\<lparr>ns := ?p, trace := trace ?st @ [LogNotFound ''ns'']\<rparr>)"
    using task_not_found_resolves [of ?e ?cfg "''ns''" "JObj []" ?st _ _ _ 0 "JObj [(''sub'', JFun 2 1)]" ?p] r2
    by simp
  show ?thesis using a b by (simp add: runTask_def)
qed

text \<open>
  C6 (amended). The engine resolves and selects, then runs the switch on the declared
  parameter count, then the pre-hook, then the runner. A selected function of three or four
  parameters is called in the switch (lines 137-144), that is before the pre-hook is looked
  up and run; what it returns is run only after the pre-hook has returned without rejecting.
  A selected function of any other parameter count is only wrapped in the switch: it is
  called after the pre-hook has returned without rejecting, between the "Starting" and the
  "Finished" line.
\<close>

theorem selected_function_and_pre_hook_order:
  "select_fn e cfg name args st = Inr (JFun f n, fnName, True, st1) \<Longrightarrow>
     (n \<noteq> 3 \<and> n \<noteq> 4 \<longrightarrow>
        execute e cfg (Suc k) name args st =
          (case run_hook (execute e cfg k) fnName ''pre'' args st1 of
             None \<Rightarrow> None
           | Some (Rejected x, st3) \<Rightarrow> Some (Rejected x, st3)
           | Some (Resolved, st3) \<Rightarrow>
               dropped (run_hook (execute e cfg k) fnName ''post'' args
                 (st3\<lparr>trace := trace st3 @ [LogStarting name, Called f [args]]
                                    @ logged (caught (call_fn e f [args])) @ [LogFinished name]\<rparr>)))) \<and>
     (n = 3 \<or> n = 4 \<longrightarrow>
        (\<exists>as. (as = [JObj (ns st1), JStr name, args]
                 \<or> n = 4 \<and> as = [JObj (ns st1), JStr name, args, options cfg]) \<and>
          execute e cfg (Suc k) name args st =
            (case produced (call_fn e f as, st1\<lparr>trace := trace st1 @ [Called f as]\<rparr>) of
               (Inl x, st2) \<Rightarrow> Some (Rejected x, st2)
             | (Inr rv, st2) \<Rightarrow>
                 (case run_hook (execute e cfg k) fnName ''pre'' args st2 of
                    None \<Rightarrow> None
                  | Some (Rejected x, st3) \<Rightarrow> Some (Rejected x, st3)
                  | Some (Resolved, st3) \<Rightarrow>
                      run_runner (execute e cfg k) e name fnName args rv st3))))"
proof -
  assume s: "select_fn e cfg name args st = Inr (JFun f n, fnName, True, st1)"
  have f: "execute e cfg (Suc k) name args st
             = run_found (execute e cfg k) e cfg (JFun f n) name fnName args st1"
    using s by (rule execute_found)
  have plain: "n \<noteq> 3 \<and> n \<noteq> 4 \<longrightarrow>
        execute e cfg (Suc k) name args st =
          (case run_hook (execute e cfg k) fnName ''pre'' args st1 of
             None \<Rightarrow> None
           | Some (Rejected x, st3) \<Rightarrow> Some (Rejected x, st3)
           | Some (Resolved, st3) \<Rightarrow>
               dropped (run_hook (execute e cfg k) fnName ''post'' args
                 (st3\<lparr>trace := trace st3 @ [LogStarting name, Called f [args]]
                                    @ logged (caught (call_fn e f [args])) @ [LogFinished name]\<rparr>)))"
    using execute_plain [OF s] by blast
  have shape: "execute e cfg (Suc k) name args st =
            (case produced (call_fn e f as, st1\<lparr>trace := trace st1 @ [Called f as]\<rparr>) of
               (Inl x, st2) \<Rightarrow> Some (Rejected x, st2)
             | (Inr rv, st2) \<Rightarrow>
                 (case run_hook (execute e cfg k) fnName ''pre'' args st2 of
                    None \<Rightarrow> None
                  | Some (Rejected x, st3) \<Rightarrow> Some (Rejected x, st3)
                  | Some (Resolved, st3) \<Rightarrow>
                      run_runner (execute e cfg k) e name fnName args rv st3))"
    if "dispatch e cfg (JFun f n) name args st1
          = produced (call_fn e f as, st1\<lparr>trace := trace st1 @ [Called f as]\<rparr>)" for as
    using f that by (simp add: run_found_def)
  have three: "n = 3 \<Longrightarrow> dispatch e cfg (JFun f n) name args st1
      = produced (call_fn e f [JObj (ns st1), JStr name, args],
                  st1\<lparr>trace := trace st1 @ [Called f [JObj (ns st1), JStr name, args]]\<rparr>)"
    by (simp add: dispatch_three)
  have four: "n = 4 \<Longrightarrow>
      dispatch e cfg (JFun f n) name args st1
        = produced (call_fn e f [JObj (ns st1), JStr name, args],
                  st1\<lparr>trace := trace st1 @ [Called f [JObj (ns st1), JStr name, args]]\<rparr>) \<or>
      dispatch e cfg (JFun f n) name args st1
        = produced (call_fn e f [JObj (ns st1), JStr name, args, options cfg],
                  st1\<lparr>trace := trace st1 @ [Called f [JObj (ns st1), JStr name, args, options cfg]]\<rparr>)"
    by (simp add: dispatch_four)
  have runner: "n = 3 \<or> n = 4 \<longrightarrow>
        (\<exists>as. (as = [JObj (ns st1), JStr name, args]
                 \<or> n = 4 \<and> as = [JObj (ns st1), JStr name, args, options cfg]) \<and>
          execute e cfg (Suc k) name args st =
            (case produced (call_fn e f as, st1\<lparr>trace := trace st1 @ [Called f as]\<rparr>) of
               (Inl x, st2) \<Rightarrow> Some (Rejected x, st2)
             | (Inr rv, st2) \<Rightarrow>
                 (case run_hook (execute e cfg k) fnName ''pre'' args st2 of
                    None \<Rightarrow> None
                  | Some (Rejected x, st3) \<Rightarrow> Some (Rejected x, st3)
                  | Some (Resolved, st3) \<Rightarrow>
                      run_runner (execute e cfg k) e name fnName args rv st3)))"
  proof (intro impI)
    assume "n = 3 \<or> n = 4"
    then consider (a) "dispatch e cfg (JFun f n) name args st1
        = produced (call_fn e f [JObj (ns st1), JStr name, args],
                  st1\<lparr>trace := trace st1 @ [Called f [JObj (ns st1), JStr name, args]]\<rparr>)"
      | (b) "n = 4" "dispatch e cfg (JFun f n) name args st1
        = produced (call_fn e f [JObj (ns st1), JStr name, args, options cfg],
                  st1\<lparr>trace := trace st1 @ [Called f [JObj (ns st1), JStr name, args, options cfg]]\<rparr>)"
      using three four by blast
    then show "\<exists>as. (as = [JObj (ns st1), JStr name, args]
                 \<or> n = 4 \<and> as = [JObj (ns st1), JStr name, args, options cfg]) \<and>
          execute e cfg (Suc k) name args st =
            (case produced (call_fn e f as, st1\<lparr>trace := trace st1 @ [Called f as]\<rparr>) of
               (Inl x, st2) \<Rightarrow> Some (Rejected x, st2)
             | (Inr rv, st2) \<Rightarrow>
                 (case run_hook (execute e cfg k) fnName ''pre'' args st2 of
                    None \<Rightarrow> None
                  | Some (Rejected x, st3) \<Rightarrow> Some (Rejected x, st3)
                  | Some (Resolved, st3) \<Rightarrow>
                      run_runner (execute e cfg k) e name fnName args rv st3))"
    proof cases
      case a
      show ?thesis
        by (rule exI [of _ "[JObj (ns st1), JStr name, args]"]) (use shape [OF a] in simp)
    next
      case b
      show ?thesis
        by (rule exI [of _ "[JObj (ns st1), JStr name, args, options cfg]"])
          (use shape [OF b(2)] b(1) in simp)
    qed
  qed
  show ?thesis using plain runner by blast
qed

theorem selected_function_and_pre_hook_order_witness:
  "execute \<lparr>call_fn = (\<lambda>f as. if f = 1 then Return (JFun 5 0) else Return JUndefined),
            call_with_done = (\<lambda>g. (NoDone, Return JUndefined))\<rparr>
       \<lparr>runner = JUndefined, options = JUndefined\<rparr> (Suc (Suc 0)) ''build'' (JObj [])
       \<lparr>ns = [(''build'', JFun 1 3), (''prebuild'', JFun 2 1)], trace = []\<rparr>
     = Some (Resolved,
         \<lparr>ns = [(''build'', JFun 1 3), (''prebuild'', JFun 2 1)],
          trace = [Called 1 [JObj [(''build'', JFun 1 3), (''prebuild'', JFun 2 1)], JStr ''build'', JObj []],
                   LogStarting ''prebuild'', Called 2 [JObj []], LogFinished ''prebuild'',
                   LogStarting ''build'', Called 5 [JArr []], LogFinished ''build'']\<rparr>) \<and>
   execute \<lparr>call_fn = (\<lambda>f as. if f = 1 then Return (JFun 5 0) else Return JUndefined),
            call_with_done = (\<lambda>g. (NoDone, Return JUndefined))\<rparr>
       \<lparr>runner = JUndefined, options = JUndefined\<rparr> (Suc (Suc 0)) ''build'' (JObj [])
       \<lparr>ns = [(''build'', JFun 1 1), (''prebuild'', JFun 2 1)], trace = []\<rparr>
     = Some (Resolved,
         \<lparr>ns = [(''build'', JFun 1 1), (''prebuild'', JFun 2 1)],
          trace = [LogStarting ''prebuild'', Called 2 [JObj []], LogFinished ''prebuild'',
                   LogStarting ''build'', Called 1 [JObj []], LogFinished ''build'']\<rparr>)"
proof -
  let ?e = "\<lparr>call_fn = (\<lambda>f as. if f = 1 then Return (JFun 5 0) else Return JUndefined),
            call_with_done = (\<lambda>g. (NoDone, Return JUndefined))\<rparr>"
  let ?cfg = "\<lparr>runner = JUndefined, options = JUndefined\<rparr>"
  let ?s3 = "\<lparr>ns = [(''build'', JFun 1 3), (''prebuild'', JFun 2 1)], trace = []\<rparr>"
  let ?s1 = "\<lparr>ns = [(''build'', JFun 1 1), (''prebuild'', JFun 2 1)], trace = []\<rparr>"
  have a: "select_fn ?e ?cfg ''build'' (JObj []) ?s3 = Inr (JFun 1 3, ''build'', True, ?s3)"
    by (simp add: engine_defs)
  have b: "select_fn ?e ?cfg ''build'' (JObj []) ?s1 = Inr (JFun 1 1, ''build'', True, ?s1)"
    by (simp add: engine_defs)
  show ?thesis
    using selected_function_and_pre_hook_order [OF a, of "Suc 0"]
      selected_function_and_pre_hook_order [OF b, of "Suc 0"]
    by (simp add: engine_defs)
qed

text \<open>
  The claim as stated fails for a task of three declared parameters: \<^verbatim>\<open>build\<close> is called
  first, and the pre-hook \<^verbatim>\<open>prebuild\<close> starts only after that call has returned.
\<close>

theorem selected_function_before_pre_hook_counterexample:
  "runTask \<lparr>call_fn = (\<lambda>f as. if f = 1 then Return (JFun 5 0) else Return JUndefined),
            call_with_done = (\<lambda>g. (NoDone, Return JUndefined))\<rparr>
       \<lparr>runner = JUndefined, options = JUndefined\<rparr> (Suc (Suc 0))
       [(''build'', JFun 1 3), (''prebuild'', JFun 2 1)] ''build'' (JObj [])
     = Some (Resolved,
         \<lparr>ns = [(''build'', JFun 1 3), (''prebuild'', JFun 2 1)],
          trace = [Called 1 [JObj [(''build'', JFun 1 3), (''prebuild'', JFun 2 1)], JStr ''build'', JObj []],
                   LogStarting ''prebuild'', Called 2 [JObj []], LogFinished ''prebuild'',
                   LogStarting ''build'', Called 5 [JArr []], LogFinished ''build'']\<rparr>)"
  by (simp add: engine_defs)

text \<open>
  C4 (amended). For a task of plain-task shape (a selected function whose declared parameter
  count is neither 3 nor 4) that the engine calls after a pre-hook that did not reject: when
  the body throws or rejects with \<open>x\<close>, the error is passed to the completion callback, it
  is logged when it is truthy, "Finished" is logged, the post-hook is then run, and the
  promise of the execution is fulfilled whatever the post-hook does.
\<close>

theorem plain_task_failure_is_logged:
  "select_fn e cfg name args st = Inr (JFun f n, fnName, True, st1) \<Longrightarrow>
   n \<noteq> 3 \<Longrightarrow> n \<noteq> 4 \<Longrightarrow>
   run_hook (execute e cfg k) fnName ''pre'' args st1 = Some (Resolved, st3) \<Longrightarrow>
   caught (call_fn e f [args]) = Some x \<Longrightarrow>
   fields_bound (ns st) \<le> k \<Longrightarrow>
     \<exists>r st'.
       run_hook (execute e cfg k) fnName ''post'' args
         (st3\<lparr>trace := trace st3 @ [LogStarting name, Called f [args]]
                            @ (if truthy_err x then [LogError x] else [])
                            @ [LogFinished name]\<rparr>) = Some (r, st') \<and>
       execute e cfg (Suc k) name args st = Some (Resolved, st')"
proof -
  assume s: "select_fn e cfg name args st = Inr (JFun f n, fnName, True, st1)"
    and n: "n \<noteq> 3" "n \<noteq> 4"
    and pre: "run_hook (execute e cfg k) fnName ''pre'' args st1 = Some (Resolved, st3)"
    and x: "caught (call_fn e f [args]) = Some x"
    and k: "fields_bound (ns st) \<le> k"
  let ?mid = "st3\<lparr>trace := trace st3 @ [LogStarting name, Called f [args]]
                            @ (if truthy_err x then [LogError x] else [])
                            @ [LogFinished name]\<rparr>"
  have "fields_bound (ns st3) \<le> k"
    using select_fn_bound [OF s] run_hook_bound [OF pre] k by simp
  then have "fields_bound (ns ?mid) \<le> k" by simp
  then obtain r st' where post: "run_hook (execute e cfg k) fnName ''post'' args ?mid = Some (r, st')"
    using run_hook_returns [of ?mid k "''post''" e cfg fnName args] by auto
  have "execute e cfg (Suc k) name args st = Some (Resolved, st')"
    using execute_plain [OF s n, of k] pre x post by (simp add: logged_def)
  then show ?thesis using post by blast
qed

theorem plain_task_failure_is_logged_witness:
  "execute \<lparr>call_fn = (\<lambda>f as. if f = 1 then Throw (ErrorObj ''boom'') else Return JUndefined),
            call_with_done = (\<lambda>g. (NoDone, Return JUndefined))\<rparr>
       \<lparr>runner = JUndefined, options = JUndefined\<rparr> (Suc 16) ''build'' (JObj [])
       \<lparr>ns = [(''build'', JFun 1 1), (''postbuild'', JFun 2 1)], trace = []\<rparr>
     = Some (Resolved,
         \<lparr>ns = [(''build'', JFun 1 1), (''postbuild'', JFun 2 1)],
          trace = [LogStarting ''build'', Called 1 [JObj []], LogError (ErrorObj ''boom''),
                   LogFinished ''build'', LogStarting ''postbuild'', Called 2 [JObj []],
                   LogFinished ''postbuild'']\<rparr>)"
proof -
  let ?e = "\<lparr>call_fn = (\<lambda>f as. if f = 1 then Throw (ErrorObj ''boom'') else Return JUndefined),
            call_with_done = (\<lambda>g. (NoDone, Return JUndefined))\<rparr>"
  let ?cfg = "\<lparr>runner = JUndefined, options = JUndefined\<rparr>"
  let ?st = "\<lparr>ns = [(''build'', JFun 1 1), (''postbuild'', JFun 2 1)], trace = []\<rparr>"
  have s: "select_fn ?e ?cfg ''build'' (JObj []) ?st = Inr (JFun 1 1, ''build'', True, ?st)"
    by (simp add: engine_defs)
  have n: "(1::nat) \<noteq> 3" "(1::nat) \<noteq> 4" by simp_all
  have pre: "run_hook (execute ?e ?cfg 16) ''build'' ''pre'' (JObj []) ?st = Some (Resolved, ?st)"
    by (simp add: engine_defs)
  have x: "caught (call_fn ?e 1 [JObj []]) = Some (ErrorObj ''boom'')" by simp
  have k: "fields_bound (ns ?st) \<le> 16" by simp
  show ?thesis
    using plain_task_failure_is_logged [OF s n pre x k]
    by (simp add: engine_defs execute_numeral)
qed

text \<open>
  The claim as stated fails for a task of three declared parameters: it is called in the
  switch, outside any \<^verbatim>\<open>try\<close>, so its throw rejects the promise of \<^verbatim>\<open>runTask\<close>, nothing is
  logged and the post-hook \<^verbatim>\<open>postbuild\<close> does not run. And a plain task that rejects with
  \<^verbatim>\<open>undefined\<close> is not logged: the callback tests \<^verbatim>\<open>if (err)\<close>.
\<close>

theorem task_failure_rejects_counterexample:
  "runTask \<lparr>call_fn = (\<lambda>f as. if f = 1 then Throw (ErrorObj ''boom'') else Return JUndefined),
            call_with_done = (\<lambda>g. (NoDone, Return JUndefined))\<rparr>
       \<lparr>runner = JUndefined, options = JUndefined\<rparr> (Suc (Suc 0))
       [(''build'', JFun 1 3), (''postbuild'', JFun 2 1)] ''build'' (JObj [])
     = Some (Rejected (ErrorObj ''boom''),
         \<lparr>ns = [(''build'', JFun 1 3), (''postbuild'', JFun 2 1)],
          trace = [Called 1 [JObj [(''build'', JFun 1 3), (''postbuild'', JFun 2 1)],
                             JStr ''build'', JObj []]]\<rparr>) \<and>
   runTask \<lparr>call_fn = (\<lambda>f as. RejectedWith (Thrown JUndefined)),
            call_with_done = (\<lambda>g. (NoDone, Return JUndefined))\<rparr>
       \<lparr>runner = JUndefined, options = JUndefined\<rparr> (Suc (Suc 0))
       [(''build'', JFun 1 1)] ''build'' (JObj [])
     = Some (Resolved,
         \<lparr>ns = [(''build'', JFun 1 1)],
          trace = [LogStarting ''build'', Called 1 [JObj []], LogFinished ''build'']\<rparr>)"
  by (simp add: engine_defs)

text \<open>
  C5 (amended). When the value that the selected function produced in the switch (after
  awaiting it when it is a promise) is not callable, and the pre-hook did not reject, the
  execution logs an error whose message ends with the type of the value (\<^verbatim>\<open>null\<close> for
  \<^verbatim>\<open>null\<close>, else its \<^verbatim>\<open>typeof\<close>), logs "Finished", runs the post-hook, and its promise is
  fulfilled.
\<close>

theorem non_callable_runner_value_is_logged:
  "select_fn e cfg name args st = Inr (fn, fnName, True, st1) \<Longrightarrow>
   dispatch e cfg fn name args st1 = (Inr rv, st2) \<Longrightarrow>
   rv = RValue v \<or> rv = RPromise (Inr v) \<Longrightarrow>
   typeof v \<noteq> ''function'' \<Longrightarrow>
   run_hook (execute e cfg k) fnName ''pre'' args st2 = Some (Resolved, st3) \<Longrightarrow>
   fields_bound (ns st) \<le> k \<Longrightarrow>
     \<exists>r st'.
       run_hook (execute e cfg k) fnName ''post'' args
         (st3\<lparr>trace := trace st3 @
            [LogStarting name,
             LogError (ErrorObj (''Expected return value of runner function to be a function, got ''
                                   @ (if v = JNull then ''null'' else typeof v))),
             LogFinished name]\<rparr>) = Some (r, st') \<and>
       execute e cfg (Suc k) name args st = Some (Resolved, st')"
proof -
  assume s: "select_fn e cfg name args st = Inr (fn, fnName, True, st1)"
    and d: "dispatch e cfg fn name args st1 = (Inr rv, st2)"
    and rv: "rv = RValue v \<or> rv = RPromise (Inr v)"
    and v: "typeof v \<noteq> ''function''"
    and pre: "run_hook (execute e cfg k) fnName ''pre'' args st2 = Some (Resolved, st3)"
    and k: "fields_bound (ns st) \<le> k"
  let ?mid = "st3\<lparr>trace := trace st3 @
            [LogStarting name,
             LogError (ErrorObj (''Expected return value of runner function to be a function, got ''
                                   @ (if v = JNull then ''null'' else typeof v))),
             LogFinished name]\<rparr>"
  have "fields_bound (ns st3) \<le> k"
    using select_fn_bound [OF s] dispatch_ns [OF d] run_hook_bound [OF pre] k by simp
  then have "fields_bound (ns ?mid) \<le> k" by simp
  then obtain r st' where post: "run_hook (execute e cfg k) fnName ''post'' args ?mid = Some (r, st')"
    using run_hook_returns [of ?mid k "''post''" e cfg fnName args] by auto
  have "execute e cfg (Suc k) name args st
          = run_found (execute e cfg k) e cfg fn name fnName args st1"
    using s by (rule execute_found)
  then have "execute e cfg (Suc k) name args st = Some (Resolved, st')"
    using d pre post run_runner_not_callable [OF rv v, of "execute e cfg k" e name fnName args st3]
    by (simp add: run_found_def)
  then show ?thesis using post by blast
qed

theorem non_callable_runner_value_is_logged_witness:
  "execute \<lparr>call_fn = (\<lambda>f as. if f = 1 then Fulfilled JNull else Return JUndefined),
            call_with_done = (\<lambda>g. (NoDone, Return JUndefined))\<rparr>
       \<lparr>runner = JFun 1 3, options = JUndefined\<rparr> (Suc 6) ''build'' (JObj [])
       \<lparr>ns = [(''build'', JFun 2 1)], trace = []\<rparr>
     = Some (Resolved,
         \<lparr>ns = [(''build'', JFun 2 1)],
          trace = [Called 1 [JObj [(''build'', JFun 2 1)], JStr ''build'', JObj []],
                   LogStarting ''build'',
                   LogError (ErrorObj ''Expected return value of runner function to be a function, got null''),
                   LogFinished ''build'']\<rparr>)"
proof -
  let ?e = "\<lparr>call_fn = (\<lambda>f as. if f = 1 then Fulfilled JNull else Return JUndefined),
            call_with_done = (\<lambda>g. (NoDone, Return JUndefined))\<rparr>"
  let ?cfg = "\<lparr>runner = JFun 1 3, options = JUndefined\<rparr>"
  let ?st = "\<lparr>ns = [(''build'', JFun 2 1)], trace = []\<rparr>"
  let ?s2 = "\<lparr>ns = [(''build'', JFun 2 1)],
              trace = [Called 1 [JObj [(''build'', JFun 2 1)], JStr ''build'', JObj []]]\<rparr>"
  have s: "select_fn ?e ?cfg ''build'' (JObj []) ?st = Inr (JFun 1 3, ''build'', True, ?st)"
    by (simp add: engine_defs)
  have d: "dispatch ?e ?cfg (JFun 1 3) ''build'' (JObj []) ?st = (Inr (RPromise (Inr JNull)), ?s2)"
    by (simp add: engine_defs)
  have rv: "RPromise (Inr JNull) = RValue JNull \<or> RPromise (Inr JNull) = RPromise (Inr JNull)"
    by simp
  have v: "typeof JNull \<noteq> ''function''" by simp
  have pre: "run_hook (execute ?e ?cfg 6) ''build'' ''pre'' (JObj []) ?s2 = Some (Resolved, ?s2)"
    by (simp add: engine_defs)
  have k: "fields_bound (ns ?st) \<le> 6" by simp
  show ?thesis
    using non_callable_runner_value_is_logged [OF s d rv v pre k]
    by (simp add: engine_defs execute_numeral)
qed

text \<open>
  The claim as stated fails when the pre-hook rejects: \<^verbatim>\<open>build\<close> produces the number 5, the
  pre-hook \<^verbatim>\<open>prebuild\<close> throws, the promise of \<^verbatim>\<open>runTask\<close> is rejected with the pre-hook's
  error, and the type of the produced value is never reported.
\<close>

theorem non_callable_runner_value_unreported_counterexample:
  "runTask \<lparr>call_fn = (\<lambda>f as. if f = 1 then Return (JNum 5) else Throw (ErrorObj ''pre failed'')),
            call_with_done = (\<lambda>g. (NoDone, Return JUndefined))\<rparr>
       \<lparr>runner = JUndefined, options = JUndefined\<rparr> (Suc (Suc 0))
       [(''build'', JFun 1 3), (''prebuild'', JFun 2 3)] ''build'' (JObj [])
     = Some (Rejected (ErrorObj ''pre failed''),
         \<lparr>ns = [(''build'', JFun 1 3), (''prebuild'', JFun 2 3)],
          trace = [Called 1 [JObj [(''build'', JFun 1 3), (''prebuild'', JFun 2 3)],
                             JStr ''build'', JObj []],
                   Called 2 [JObj [(''build'', JFun 1 3), (''prebuild'', JFun 2 3)],
                             JStr ''prebuild'', JObj []]]\<rparr>)"
  by (simp add: engine_defs)

text \<open>
  C3 (amended). For every namespace and every key (a string, an array of segments, or
  \<^verbatim>\<open>undefined\<close>), with \<open>T\<close> the value that the walk of lines 39-42 reaches:
  \<^verbatim>\<open>resolveTask\<close> returns \<^verbatim>\<open>false\<close> when the key is falsy (the empty string, \<^verbatim>\<open>undefined\<close>);
  an array is truthy, the empty one too, and is walked as it is. With a truthy key, a callable
  \<open>T\<close> is returned as it is; a \<open>T\<close> that is neither callable nor a mapping gives \<^verbatim>\<open>false\<close>;
  and a valid task mapping \<open>T\<close> (non-empty, with \<^verbatim>\<open>_\<close> absent or callable) is never rejected:
  its \<^verbatim>\<open>_\<close> entry is returned when that is callable, and otherwise the mapping itself, a mapping
  under its \<^verbatim>\<open>default\<close> key having been replaced by that mapping's \<^verbatim>\<open>_\<close> entry.
\<close>

theorem resolveTask_result:
  "T = walk (JObj obj) (key_properties key sep) \<Longrightarrow>
     (\<not> key_truthy key \<longrightarrow> fst (resolveTask obj key sep) = JBool False) \<and>
     (key_truthy key \<and> typeof T = ''function'' \<longrightarrow> fst (resolveTask obj key sep) = T) \<and>
     (key_truthy key \<and> typeof T \<noteq> ''function'' \<and> \<not> isObject T \<longrightarrow>
        fst (resolveTask obj key sep) = JBool False) \<and>
     (key_truthy key \<and> isObject T \<and> validTaskValue T \<longrightarrow>
        fst (resolveTask obj key sep) =
          (if typeof (get_prop T ''_'') = ''function'' then get_prop T ''_'' else flatten_default T)
        \<and> fst (resolveTask obj key sep) \<noteq> JBool False)"
proof -
  assume T: "T = walk (JObj obj) (key_properties key sep)"
  have 1: "\<not> key_truthy key \<longrightarrow> fst (resolveTask obj key sep) = JBool False"
    by (simp add: resolveTask_def)
  have 2: "key_truthy key \<and> typeof T = ''function'' \<longrightarrow> fst (resolveTask obj key sep) = T"
  proof (intro impI, elim conjE)
    assume k: "key_truthy key" and f: "typeof T = ''function''"
    then obtain g n where g: "T = JFun g n" using typeof_function by blast
    then have "flatten_default T = T" by (simp add: flatten_default_def)
    then show "fst (resolveTask obj key sep) = T"
      using k g T [symmetric] by (simp add: resolveTask_def Let_def validTaskValue_def)
  qed
  have 3: "key_truthy key \<and> typeof T \<noteq> ''function'' \<and> \<not> isObject T \<longrightarrow>
        fst (resolveTask obj key sep) = JBool False"
    using T [symmetric] by (simp add: resolveTask_def Let_def validTaskValue_def)
  have 4: "key_truthy key \<and> isObject T \<and> validTaskValue T \<longrightarrow>
        fst (resolveTask obj key sep) =
          (if typeof (get_prop T ''_'') = ''function'' then get_prop T ''_'' else flatten_default T)
        \<and> fst (resolveTask obj key sep) \<noteq> JBool False"
  proof (intro impI, elim conjE)
    assume k: "key_truthy key" and o: "isObject T" and v: "validTaskValue T"
    obtain kvs where kvs: "T = JObj kvs" using o by (cases T) auto
    have u: "typeof (get_prop T ''_'') = ''undefined'' \<or> typeof (get_prop T ''_'') = ''function''"
      using v o isObject_not_function [of T] by (auto simp: validTaskValue_def)
    have tr: "truthy (get_prop T ''_'') \<longleftrightarrow> typeof (get_prop T ''_'') = ''function''"
      using u by (cases "get_prop T ''_''") auto
    have fd: "flatten_default T \<noteq> JBool False"
      using kvs by (auto simp: flatten_default_def)
    have nf: "get_prop T ''_'' \<noteq> JBool False" if "typeof (get_prop T ''_'') = ''function''"
      using that by auto
    have eq: "fst (resolveTask obj key sep) =
          (if typeof (get_prop T ''_'') = ''function'' then get_prop T ''_'' else flatten_default T)"
      using k o tr T [symmetric] by (simp add: resolveTask_def Let_def)
    show "fst (resolveTask obj key sep) =
          (if typeof (get_prop T ''_'') = ''function'' then get_prop T ''_'' else flatten_default T)
        \<and> fst (resolveTask obj key sep) \<noteq> JBool False"
      unfolding eq using fd nf by simp
  qed
  show ?thesis using 1 2 3 4 by blast
qed

theorem resolveTask_result_witness:
  "fst (resolveTask [(''deploy'', JObj [(''_'', JFun 1 1)])] (KeyStr ''deploy'') '':'') = JFun 1 1 \<and>
   fst (resolveTask [(''a'', JObj [(''b'', JFun 2 1)])] (KeyArr [''a'', ''b'']) '':'') = JFun 2 1 \<and>
   fst (resolveTask [(''a'', JObj [(''b'', JFun 2 1)])] (KeyStr ''a:c'') '':'') = JBool False \<and>
   fst (resolveTask [(''a'', JObj [(''b'', JFun 2 1)])] (KeyStr '''') '':'') = JBool False \<and>
   fst (resolveTask [(''a'', JObj [(''b'', JFun 2 1)])] KeyUndefined '':'') = JBool False \<and>
   fst (resolveTask [(''a'', JObj [(''b'', JFun 2 1)])] (KeyArr []) '':'')
     = JObj [(''a'', JObj [(''b'', JFun 2 1)])]"
  using resolveTask_result [where obj = "[(''deploy'', JObj [(''_'', JFun 1 1)])]" and key = "KeyStr ''deploy''" and sep = "'':''", OF refl]
    resolveTask_result [where obj = "[(''a'', JObj [(''b'', JFun 2 1)])]" and key = "KeyArr [''a'', ''b'']" and sep = "'':''", OF refl]
    resolveTask_result [where obj = "[(''a'', JObj [(''b'', JFun 2 1)])]" and key = "KeyStr ''a:c''" and sep = "'':''", OF refl]
    resolveTask_result [where obj = "[(''a'', JObj [(''b'', JFun 2 1)])]" and key = "KeyStr ''''" and sep = "'':''", OF refl]
    resolveTask_result [where obj = "[(''a'', JObj [(''b'', JFun 2 1)])]" and key = "KeyUndefined" and sep = "'':''", OF refl]
    resolveTask_result [where obj = "[(''a'', JObj [(''b'', JFun 2 1)])]" and key = "KeyArr []" and sep = "'':''", OF refl]
  by (simp add: split_def walk_def walk_step_def validTaskValue_def flatten_default_def)

text \<open>
  The claim as stated fails on a non-empty mapping with \<^verbatim>\<open>_\<close> undefined and no callable default:
  for the namespace \<^verbatim>\<open>{ a: { b: 1 } }\<close>, \<^verbatim>\<open>resolveTask(ns, "a")\<close> returns the mapping
  \<^verbatim>\<open>{ b: 1 }\<close>, not \<^verbatim>\<open>false\<close>.
\<close>

theorem resolveTask_returns_mapping_counterexample:
  "fst (resolveTask [(''a'', JObj [(''b'', JNum 1)])] (KeyStr ''a'') '':'') = JObj [(''b'', JNum 1)] \<and>
   fst (resolveTask [(''a'', JObj [(''b'', JNum 1)])] (KeyStr ''a'') '':'') \<noteq> JBool False \<and>
   typeof (get_prop (JObj [(''b'', JNum 1)]) ''_'') = ''undefined'' \<and>
   typeof (get_prop (JObj [(''b'', JNum 1)]) ''default'') \<noteq> ''function''"
  by (simp add: resolveTask_def split_def walk_def walk_step_def validTaskValue_def
      flatten_default_def Let_def)

text \<open>
  C10 (amended). When the configured runner is a function \<open>f\<close>, every requested name is marked
  found, whatever the namespace holds and whether or not the name resolves; no "not found"
  line is logged by the execution or by any hook it runs; and the execution returns. It
  continues with lines 133-218, which the last two parts give in full. Here \<open>hook prefix\<close>
  derives the hook name from the requested name, resolves it and, when it resolves, executes
  it; \<open>finish\<close> is the completion callback (error line, "Finished" line, then the post-hook);
  \<open>after_pre\<close> is the pre-hook followed by the "Starting" line, a rejected pre-hook rejecting
  the execution.

  \<^item> A runner that declares neither 3 nor 4 parameters is the task: the pre-hook is attempted,
    then \<open>f\<close> is called with the argument bag, then the callback attempts the post-hook.
  \<^item> A runner that declares 3 or 4 parameters is called first, with the namespace, the name
    and the arguments (and the options, when it declares 4 and they are a non-empty mapping).
    When the call throws, the execution rejects and no hook is derived. Otherwise the pre-hook
    is attempted. The post-hook is attempted by the callback, hence when the callback is
    called: for a produced function without parameters, for a value that is not callable,
    and for a produced function with parameters when it calls the callback; not when the
    produced promise rejects.
\<close>

theorem callable_runner_is_always_found:
  assumes "runner cfg = JFun f n"
    and "st1 = st\<lparr>ns := snd (resolveTask (ns st) (KeyStr name) '':'')\<rparr>"
    and "hook = (\<lambda>prefix s.
           if truthy (fst (resolveTask (ns s) (KeyStr (getFnName name prefix '':'')) '':''))
           then execute e cfg k (getFnName name prefix '':'') args
                  (s\<lparr>ns := snd (resolveTask (ns s) (KeyStr (getFnName name prefix '':'')) '':'')\<rparr>)
           else Some (Resolved,
                  s\<lparr>ns := snd (resolveTask (ns s) (KeyStr (getFnName name prefix '':'')) '':'')\<rparr>))"
    and "finish = (\<lambda>err s. hook ''post'' (s\<lparr>trace := trace s @ logged err @ [LogFinished name]\<rparr>))"
    and "fulfilled = (\<lambda>res. case res of None \<Rightarrow> None | Some (r, s) \<Rightarrow> Some (Resolved, s))"
    and "after_pre = (\<lambda>s body.
           case hook ''pre'' s of
             None \<Rightarrow> None
           | Some (Rejected x, s') \<Rightarrow> Some (Rejected x, s')
           | Some (Resolved, s') \<Rightarrow> body (s'\<lparr>trace := trace s' @ [LogStarting name]\<rparr>))"
    and "use_produced = (\<lambda>v s.
           case v of
             JFun g m \<Rightarrow>
               if m = 0
               then fulfilled (finish (caught (call_fn e g [JArr []]))
                      (s\<lparr>trace := trace s @ [Called g [JArr []]]\<rparr>))
               else
                 (case call_with_done e g of
                    (NoDone, c) \<Rightarrow> Some (outcome c, s\<lparr>trace := trace s @ [CalledWithDone g]\<rparr>)
                  | (DoneIgnored err, c) \<Rightarrow>
                      (case finish err (s\<lparr>trace := trace s @ [CalledWithDone g]\<rparr>) of
                         None \<Rightarrow> None
                       | Some (r, s') \<Rightarrow> Some (outcome c, s'))
                  | (DoneAwaited err, c) \<Rightarrow>
                      (case finish err (s\<lparr>trace := trace s @ [CalledWithDone g]\<rparr>) of
                         None \<Rightarrow> None
                       | Some (Rejected x, s') \<Rightarrow> Some (Rejected x, s')
                       | Some (Resolved, s') \<Rightarrow> Some (outcome c, s')))
           | _ \<Rightarrow>
               fulfilled (finish
                 (Some (ErrorObj (''Expected return value of runner function to be a function, got ''
                                    @ (if v = JNull then ''null'' else typeof v)))) s))"
    and "as = (if n = 4 \<and> isObject (options cfg) \<and> object_keys (options cfg) \<noteq> []
               then [JObj (ns st1), JStr name, args, options cfg]
               else [JObj (ns st1), JStr name, args])"
  shows
    "select_fn e cfg name args st = Inr (JFun f n, name, True, st1) \<and>
     (\<forall>j r st'. execute e cfg j name args st = Some (r, st') \<longrightarrow>
        (\<forall>m. LogNotFound m \<in> set (trace st') \<longrightarrow> LogNotFound m \<in> set (trace st))) \<and>
     (\<exists>r st'. execute e cfg (Suc (fields_bound (ns st))) name args st = Some (r, st')) \<and>
     (n \<noteq> 3 \<and> n \<noteq> 4 \<longrightarrow>
        execute e cfg (Suc k) name args st =
          after_pre st1
            (\<lambda>s. fulfilled (finish (caught (call_fn e f [args]))
                   (s\<lparr>trace := trace s @ [Called f [args]]\<rparr>)))) \<and>
     (n = 3 \<or> n = 4 \<longrightarrow>
        execute e cfg (Suc k) name args st =
          (case call_fn e f as of
             Throw x \<Rightarrow> Some (Rejected x, st1\<lparr>trace := trace st1 @ [Called f as]\<rparr>)
           | RejectedWith x \<Rightarrow>
               after_pre (st1\<lparr>trace := trace st1 @ [Called f as]\<rparr>) (\<lambda>s. Some (Rejected x, s))
           | Return v \<Rightarrow> after_pre (st1\<lparr>trace := trace st1 @ [Called f as]\<rparr>) (use_produced v)
           | Fulfilled v \<Rightarrow> after_pre (st1\<lparr>trace := trace st1 @ [Called f as]\<rparr>) (use_produced v)))"
proof -
  have t: "typeof (runner cfg) = ''function''" using assms(1) by simp
  have 1: "select_fn e cfg name args st = Inr (JFun f n, name, True, st1)"
    using select_fn_callable_runner [OF t, of e name args st] assms(1,2) by simp
  have 2: "\<forall>j r st'. execute e cfg j name args st = Some (r, st') \<longrightarrow>
        (\<forall>m. LogNotFound m \<in> set (trace st') \<longrightarrow> LogNotFound m \<in> set (trace st))"
    using execute_rel [OF not_found_step_closed [OF t]] by blast
  have 3: "\<exists>r st'. execute e cfg (Suc (fields_bound (ns st))) name args st = Some (r, st')"
    by (rule execute_total) simp
  have cb: "done_cb (execute e cfg k) name name args err s = finish err s" for err s
    unfolding assms(4) assms(3) by (simp add: done_cb_trace run_hook_unfold)
  have dr: "dropped res = fulfilled res" for res
    unfolding assms(5) by (rule dropped_case)
  have pre: "(case run_hook (execute e cfg k) name ''pre'' args s of
               None \<Rightarrow> None
             | Some (Rejected x, s') \<Rightarrow> Some (Rejected x, s')
             | Some (Resolved, s') \<Rightarrow> run_runner (execute e cfg k) e name name args rv s')
           = after_pre s body"
    if "\<And>s'. run_runner (execute e cfg k) e name name args rv s'
               = body (s'\<lparr>trace := trace s' @ [LogStarting name]\<rparr>)" for s rv body
    unfolding assms(6) assms(3) using that
    by (simp add: run_hook_unfold split: option.splits settled.splits prod.splits)
  have wd: "run_with_done e g (done_cb (execute e cfg k) name name args) s =
      (case call_with_done e g of
         (NoDone, c) \<Rightarrow> Some (outcome c, s\<lparr>trace := trace s @ [CalledWithDone g]\<rparr>)
       | (DoneIgnored err, c) \<Rightarrow>
           (case finish err (s\<lparr>trace := trace s @ [CalledWithDone g]\<rparr>) of
              None \<Rightarrow> None
            | Some (r, s') \<Rightarrow> Some (outcome c, s'))
       | (DoneAwaited err, c) \<Rightarrow>
           (case finish err (s\<lparr>trace := trace s @ [CalledWithDone g]\<rparr>) of
              None \<Rightarrow> None
            | Some (Rejected x, s') \<Rightarrow> Some (Rejected x, s')
            | Some (Resolved, s') \<Rightarrow> Some (outcome c, s')))" for g s
    by (simp add: run_with_done_def cb emit_def Let_def split: prod.split done_use.split)
  have up: "run_runner (execute e cfg k) e name name args rv s
        = use_produced v (s\<lparr>trace := trace s @ [LogStarting name]\<rparr>)"
    if "rv = RValue v \<or> rv = RPromise (Inr v)" for rv v s
    unfolding run_runner_produced [OF that] assms(7)
    by (cases v) (simp_all add: cb dr wd)
  have 4: "execute e cfg (Suc k) name args st =
          after_pre st1
            (\<lambda>s. fulfilled (finish (caught (call_fn e f [args]))
                   (s\<lparr>trace := trace s @ [Called f [args]]\<rparr>)))" if n: "n \<noteq> 3" "n \<noteq> 4"
  proof -
    have w: "run_runner (execute e cfg k) e name name args (RWrapper (JFun f n)) s'
        = fulfilled (finish (caught (call_fn e f [args]))
            (s'\<lparr>trace := trace s' @ [LogStarting name]\<rparr>\<lparr>trace := trace (s'\<lparr>trace := trace s' @ [LogStarting name]\<rparr>) @ [Called f [args]]\<rparr>))" for s'
      by (simp add: run_runner_def call_task_def cb dr emit_def Let_def)
    have "execute e cfg (Suc k) name args st
        = run_found (execute e cfg k) e cfg (JFun f n) name name args st1"
      using 1 by (rule execute_found)
    then show ?thesis
      using pre [of "RWrapper (JFun f n)" _ st1, OF w]
      by (simp add: run_found_def dispatch_plain [OF n] del: execute.simps)
  qed
  have 5: "execute e cfg (Suc k) name args st =
          (case call_fn e f as of
             Throw x \<Rightarrow> Some (Rejected x, st1\<lparr>trace := trace st1 @ [Called f as]\<rparr>)
           | RejectedWith x \<Rightarrow>
               after_pre (st1\<lparr>trace := trace st1 @ [Called f as]\<rparr>) (\<lambda>s. Some (Rejected x, s))
           | Return v \<Rightarrow> after_pre (st1\<lparr>trace := trace st1 @ [Called f as]\<rparr>) (use_produced v)
           | Fulfilled v \<Rightarrow> after_pre (st1\<lparr>trace := trace st1 @ [Called f as]\<rparr>) (use_produced v))"
    if n: "n = 3 \<or> n = 4"
  proof -
    have d: "dispatch e cfg (JFun f n) name args st1
        = produced (call_fn e f as, st1\<lparr>trace := trace st1 @ [Called f as]\<rparr>)"
      using n unfolding assms(8) by (auto simp: dispatch_three dispatch_four)
    have x: "execute e cfg (Suc k) name args st
        = run_found (execute e cfg k) e cfg (JFun f n) name name args st1"
      using 1 by (rule execute_found)
    show ?thesis
    proof (cases "call_fn e f as")
      case (Return v)
      then show ?thesis
        using pre [of "RValue v" "use_produced v" "st1\<lparr>trace := trace st1 @ [Called f as]\<rparr>"]
          up [of "RValue v" v]
        by (simp add: x run_found_def d del: execute.simps)
    next
      case (Throw y)
      then show ?thesis by (simp add: x run_found_def d del: execute.simps)
    next
      case (Fulfilled v)
      then show ?thesis
        using pre [of "RPromise (Inr v)" "use_produced v" "st1\<lparr>trace := trace st1 @ [Called f as]\<rparr>"]
          up [of "RPromise (Inr v)" v]
        by (simp add: x run_found_def d del: execute.simps)
    next
      case (RejectedWith y)
      then show ?thesis
        using pre [of "RPromise (Inl y)" "\<lambda>s. Some (Rejected y, s)" "st1\<lparr>trace := trace st1 @ [Called f as]\<rparr>"]
        by (simp add: x run_found_def d run_runner_rejected del: execute.simps)
    qed
  qed
  show ?thesis using 1 2 3 4 5 by blast
qed

theorem callable_runner_is_always_found_witness:
  "runner \<lparr>runner = JFun 9 3, options = JObj []\<rparr> = JFun 9 3 \<and>
   execute \<lparr>call_fn = (\<lambda>f as. Return (JFun 8 0)), call_with_done = (\<lambda>g. (NoDone, Return JUndefined))\<rparr>
       \<lparr>runner = JFun 9 3, options = JObj []\<rparr> (Suc (Suc 0)) ''build'' (JObj [])
       \<lparr>ns = [(''build'', JFun 1 1), (''prebuild'', JFun 2 1), (''postbuild'', JFun 3 1)], trace = []\<rparr>
     = Some (Resolved,
         \<lparr>ns = [(''build'', JFun 1 1), (''prebuild'', JFun 2 1), (''postbuild'', JFun 3 1)],
          trace =
            [Called 9 [JObj [(''build'', JFun 1 1), (''prebuild'', JFun 2 1), (''postbuild'', JFun 3 1)],
                       JStr ''build'', JObj []],
             Called 9 [JObj [(''build'', JFun 1 1), (''prebuild'', JFun 2 1), (''postbuild'', JFun 3 1)],
                       JStr ''prebuild'', JObj []],
             LogStarting ''prebuild'', Called 8 [JArr []], LogFinished ''prebuild'',
             LogStarting ''build'', Called 8 [JArr []], LogFinished ''build'',
             Called 9 [JObj [(''build'', JFun 1 1), (''prebuild'', JFun 2 1), (''postbuild'', JFun 3 1)],
                       JStr ''postbuild'', JObj []],
             LogStarting ''postbuild'', Called 8 [JArr []], LogFinished ''postbuild'']\<rparr>) \<and>
   execute \<lparr>call_fn = (\<lambda>f as. Return (JFun 8 0)), call_with_done = (\<lambda>g. (NoDone, Return JUndefined))\<rparr>
       \<lparr>runner = JFun 9 3, options = JObj []\<rparr> (Suc (Suc 0)) ''missing'' (JObj [])
       \<lparr>ns = [(''build'', JFun 1 1), (''prebuild'', JFun 2 1), (''postbuild'', JFun 3 1)], trace = []\<rparr>
     = Some (Resolved,
         \<lparr>ns = [(''build'', JFun 1 1), (''prebuild'', JFun 2 1), (''postbuild'', JFun 3 1)],
          trace =
            [Called 9 [JObj [(''build'', JFun 1 1), (''prebuild'', JFun 2 1), (''postbuild'', JFun 3 1)],
                       JStr ''missing'', JObj []],
             LogStarting ''missing'', Called 8 [JArr []], LogFinished ''missing'']\<rparr>)"
proof -
  let ?e = "\<lparr>call_fn = (\<lambda>f as. Return (JFun 8 0)), call_with_done = (\<lambda>g. (NoDone, Return JUndefined))\<rparr>"
  let ?cfg = "\<lparr>runner = JFun 9 3, options = JObj []\<rparr>"
  let ?st = "\<lparr>ns = [(''build'', JFun 1 1), (''prebuild'', JFun 2 1), (''postbuild'', JFun 3 1)], trace = []\<rparr>"
  have c: "runner ?cfg = JFun 9 3" by simp
  have h: "execute ?e ?cfg (Suc 0) hn (JObj []) s = execute_body (\<lambda>n a s. None) ?e ?cfg hn (JObj []) s"
    for hn s
  proof -
    have "execute ?e ?cfg 0 = (\<lambda>n a s. None)" by (intro ext) simp
    then show ?thesis by simp
  qed
  have b: "execute ?e ?cfg (Suc (Suc 0)) ''build'' (JObj []) ?st = Some (Resolved,
         \<lparr>ns = [(''build'', JFun 1 1), (''prebuild'', JFun 2 1), (''postbuild'', JFun 3 1)],
          trace =
            [Called 9 [JObj [(''build'', JFun 1 1), (''prebuild'', JFun 2 1), (''postbuild'', JFun 3 1)],
                       JStr ''build'', JObj []],
             Called 9 [JObj [(''build'', JFun 1 1), (''prebuild'', JFun 2 1), (''postbuild'', JFun 3 1)],
                       JStr ''prebuild'', JObj []],
             LogStarting ''prebuild'', Called 8 [JArr []], LogFinished ''prebuild'',
             LogStarting ''build'', Called 8 [JArr []], LogFinished ''build'',
             Called 9 [JObj [(''build'', JFun 1 1), (''prebuild'', JFun 2 1), (''postbuild'', JFun 3 1)],
                       JStr ''postbuild'', JObj []],
             LogStarting ''postbuild'', Called 8 [JArr []], LogFinished ''postbuild'']\<rparr>)"
    using callable_runner_is_always_found
      [where cfg = ?cfg and f = 9 and n = 3 and e = ?e and k = "Suc 0" and name = "''build''"
         and args = "JObj []" and st = ?st, OF c refl refl refl refl refl refl refl]
    by (simp add: h engine_defs del: execute.simps)
  have m: "execute ?e ?cfg (Suc (Suc 0)) ''missing'' (JObj []) ?st = Some (Resolved,
         \<lparr>ns = [(''build'', JFun 1 1), (''prebuild'', JFun 2 1), (''postbuild'', JFun 3 1)],
          trace =
            [Called 9 [JObj [(''build'', JFun 1 1), (''prebuild'', JFun 2 1), (''postbuild'', JFun 3 1)],
                       JStr ''missing'', JObj []],
             LogStarting ''missing'', Called 8 [JArr []], LogFinished ''missing'']\<rparr>)"
    using callable_runner_is_always_found
      [where cfg = ?cfg and f = 9 and n = 3 and e = ?e and k = "Suc 0" and name = "''missing''"
         and args = "JObj []" and st = ?st, OF c refl refl refl refl refl refl refl]
    by (simp add: h engine_defs del: execute.simps)
  show ?thesis using c b m by simp
qed

text \<open>
  The claim as stated fails in its last part when the runner throws: with a runner of three
  parameters that throws, \<^verbatim>\<open>runTask(ns, "build", {})\<close> calls the runner and is rejected with its
  error; neither hook is derived or attempted, although both \<^verbatim>\<open>prebuild\<close> and \<^verbatim>\<open>postbuild\<close>
  resolve in the namespace.
\<close>

theorem throwing_runner_skips_hooks_counterexample:
  "runTask \<lparr>call_fn = (\<lambda>f as. Throw (ErrorObj ''boom'')), call_with_done = (\<lambda>g. (NoDone, Return JUndefined))\<rparr>
       \<lparr>runner = JFun 9 3, options = JObj []\<rparr> (Suc (Suc 0))
       [(''build'', JFun 1 1), (''prebuild'', JFun 2 1), (''postbuild'', JFun 3 1)] ''build'' (JObj [])
     = Some (Rejected (ErrorObj ''boom''),
         \<lparr>ns = [(''build'', JFun 1 1), (''prebuild'', JFun 2 1), (''postbuild'', JFun 3 1)],
          trace =
            [Called 9 [JObj [(''build'', JFun 1 1), (''prebuild'', JFun 2 1), (''postbuild'', JFun 3 1)],
                       JStr ''build'', JObj []]]\<rparr>) \<and>
   fst (resolveTask [(''build'', JFun 1 1), (''prebuild'', JFun 2 1), (''postbuild'', JFun 3 1)]
          (KeyStr (getFnName ''build'' ''pre'' '':'')) '':'') = JFun 2 1 \<and>
   fst (resolveTask [(''build'', JFun 1 1), (''prebuild'', JFun 2 1), (''postbuild'', JFun 3 1)]
          (KeyStr (getFnName ''build'' ''post'' '':'')) '':'') = JFun 3 1"
  by (simp add: engine_defs)

text \<open>
  C1 (amended). For the namespace \<^verbatim>\<open>{ build: fn1, prebuild: fn2, postbuild: fn3 }\<close> of plain tasks
  (declared parameter counts other than 3 and 4) and no configured runner,
  \<^verbatim>\<open>runTask(ns, "build", {x: 1})\<close> calls \<^verbatim>\<open>fn2\<close>, then \<^verbatim>\<open>fn1\<close>, then \<^verbatim>\<open>fn3\<close>, each once and
  each with the argument bag, whose \<^verbatim>\<open>x\<close> is 1. The pre-hook is started and finished before
  the main task starts. The completion callback of the main task, called when the main task
  has settled, logs the error (if any) and the "Finished" line of the main task before the
  post-hook starts; it runs the post-hook itself and completes when the execution of the
  post-hook has completed. The promise is fulfilled and the namespace is unchanged. This
  holds whatever the three tasks do (return, throw, or return a promise).
\<close>

theorem build_runs_pre_main_post_in_order:
  "typeof (runner cfg) \<noteq> ''function'' \<Longrightarrow>
   \<not> (isObject (runner cfg) \<and> typeof (get_prop (runner cfg) ''default'') = ''function'') \<Longrightarrow>
   n1 \<noteq> 3 \<Longrightarrow> n1 \<noteq> 4 \<Longrightarrow> n2 \<noteq> 3 \<Longrightarrow> n2 \<noteq> 4 \<Longrightarrow> n3 \<noteq> 3 \<Longrightarrow> n3 \<noteq> 4 \<Longrightarrow>
   pinefile = [(''build'', JFun f1 n1), (''prebuild'', JFun f2 n2), (''postbuild'', JFun f3 n3)] \<Longrightarrow>
   args = JObj [(''x'', JNum 1)] \<Longrightarrow>
     \<exists>st1 st'. runTask e cfg (Suc (Suc k)) pinefile ''build'' args = Some (Resolved, st') \<and>
       ns st' = pinefile \<and>
       trace st' =
         [LogStarting ''prebuild'', Called f2 [args]] @ logged (caught (call_fn e f2 [args])) @
         [LogFinished ''prebuild'', LogStarting ''build'', Called f1 [args]] @
         logged (caught (call_fn e f1 [args])) @
         [LogFinished ''build'', LogStarting ''postbuild'', Called f3 [args]] @
         logged (caught (call_fn e f3 [args])) @
         [LogFinished ''postbuild''] \<and>
       filter is_call (trace st') = [Called f2 [args], Called f1 [args], Called f3 [args]] \<and>
       get_prop args ''x'' = JNum 1 \<and>
       ns st1 = pinefile \<and>
       trace st1 =
         [LogStarting ''prebuild'', Called f2 [args]] @ logged (caught (call_fn e f2 [args])) @
         [LogFinished ''prebuild'', LogStarting ''build'', Called f1 [args]] \<and>
       done_cb (execute e cfg (Suc k)) ''build'' ''build'' args (caught (call_fn e f1 [args])) st1
         = Some (Resolved, st')"
proof -
  assume c: "typeof (runner cfg) \<noteq> ''function''"
    "\<not> (isObject (runner cfg) \<and> typeof (get_prop (runner cfg) ''default'') = ''function'')"
    and n: "n1 \<noteq> 3" "n1 \<noteq> 4" "n2 \<noteq> 3" "n2 \<noteq> 4" "n3 \<noteq> 3" "n3 \<noteq> 4"
    and p: "pinefile = [(''build'', JFun f1 n1), (''prebuild'', JFun f2 n2), (''postbuild'', JFun f3 n3)]"
    and a: "args = JObj [(''x'', JNum 1)]"
  let ?rec = "execute e cfg (Suc k)"
  have rs: "resolveTask pinefile (KeyStr ''build'') '':'' = (JFun f1 n1, pinefile)"
    "resolveTask pinefile (KeyStr ''prebuild'') '':'' = (JFun f2 n2, pinefile)"
    "resolveTask pinefile (KeyStr ''postbuild'') '':'' = (JFun f3 n3, pinefile)"
    "resolveTask pinefile (KeyStr ''preprebuild'') '':'' = (JBool False, pinefile)"
    "resolveTask pinefile (KeyStr ''postprebuild'') '':'' = (JBool False, pinefile)"
    "resolveTask pinefile (KeyStr ''prepostbuild'') '':'' = (JBool False, pinefile)"
    "resolveTask pinefile (KeyStr ''postpostbuild'') '':'' = (JBool False, pinefile)"
    unfolding p
    by (simp_all add: resolveTask_def split_def walk_def walk_step_def validTaskValue_def
        flatten_default_def fields_of_def Let_def)
  have names: "getFnName ''build'' ''pre'' '':'' = ''prebuild''"
    "getFnName ''build'' ''post'' '':'' = ''postbuild''"
    "getFnName ''prebuild'' ''pre'' '':'' = ''preprebuild''"
    "getFnName ''prebuild'' ''post'' '':'' = ''postprebuild''"
    "getFnName ''postbuild'' ''pre'' '':'' = ''prepostbuild''"
    "getFnName ''postbuild'' ''post'' '':'' = ''postpostbuild''"
    by (simp_all add: getFnName_def split_def)
  have sel: "select_fn e cfg name args st = Inr (JFun f m, name, True, st)"
    if "resolveTask (ns st) (KeyStr name) '':'' = (JFun f m, ns st)" for name st f m
    using select_fn_no_runner [OF c that, of e args] use_default_function [of "JFun f m" name True]
    by simp
  have leaf: "execute e cfg (Suc j) name args st
      = Some (Resolved, st\<lparr>trace := trace st @ [LogStarting name, Called f [args]]
                               @ logged (caught (call_fn e f [args])) @ [LogFinished name]\<rparr>)"
    if "ns st = pinefile" "resolveTask pinefile (KeyStr name) '':'' = (JFun f m, pinefile)" "m \<noteq> 3" "m \<noteq> 4"
      "resolveTask pinefile (KeyStr (getFnName name ''pre'' '':'')) '':'' = (JBool False, pinefile)"
      "resolveTask pinefile (KeyStr (getFnName name ''post'' '':'')) '':'' = (JBool False, pinefile)"
    for j name st f m
  proof -
    have s: "select_fn e cfg name args st = Inr (JFun f m, name, True, st)"
      using sel [of st name f m] that(1,2) by simp
    show ?thesis
      using execute_plain [OF s that(3,4), of j] that(1,5,6)
      by (simp add: run_hook_def Let_def del: execute.simps)
  qed
  let ?st0 = "\<lparr>ns = pinefile, trace = []\<rparr>"
  let ?t1 = "[LogStarting ''prebuild'', Called f2 [args]] @ logged (caught (call_fn e f2 [args]))
             @ [LogFinished ''prebuild'']"
  let ?t2 = "?t1 @ [LogStarting ''build'', Called f1 [args]] @ logged (caught (call_fn e f1 [args]))
             @ [LogFinished ''build'']"
  let ?t3 = "?t2 @ [LogStarting ''postbuild'', Called f3 [args]] @ logged (caught (call_fn e f3 [args]))
             @ [LogFinished ''postbuild'']"
  have pre: "run_hook ?rec ''build'' ''pre'' args ?st0 = Some (Resolved, \<lparr>ns = pinefile, trace = ?t1\<rparr>)"
    using leaf [of ?st0 "''prebuild''" f2 n2 k] rs names n
    by (simp add: run_hook_def Let_def del: execute.simps)
  have post: "run_hook ?rec ''build'' ''post'' args \<lparr>ns = pinefile, trace = ?t2\<rparr>
      = Some (Resolved, \<lparr>ns = pinefile, trace = ?t3\<rparr>)"
    using leaf [of "\<lparr>ns = pinefile, trace = ?t2\<rparr>" "''postbuild''" f3 n3 k] rs names n
    by (simp add: run_hook_def Let_def del: execute.simps)
  have s0: "select_fn e cfg ''build'' args ?st0 = Inr (JFun f1 n1, ''build'', True, ?st0)"
    using sel [of ?st0 "''build''" f1 n1] rs by simp
  have run: "execute e cfg (Suc (Suc k)) ''build'' args ?st0
      = Some (Resolved, \<lparr>ns = pinefile, trace = ?t3\<rparr>)"
    using execute_plain [OF s0 n(1,2), of "Suc k"] pre post by (simp del: execute.simps)
  have calls: "filter is_call (logged err) = []" for err
    by (cases err) (simp_all add: logged_def)
  have "filter is_call ?t3 = [Called f2 [args], Called f1 [args], Called f3 [args]]"
    by (simp add: calls)
  moreover have "get_prop args ''x'' = JNum 1" using a by simp
  moreover have "runTask e cfg (Suc (Suc k)) pinefile ''build'' args
      = Some (Resolved, \<lparr>ns = pinefile, trace = ?t3\<rparr>)"
    using run a by (simp add: runTask_def)
  moreover have "done_cb ?rec ''build'' ''build'' args (caught (call_fn e f1 [args]))
        \<lparr>ns = pinefile, trace = ?t1 @ [LogStarting ''build'', Called f1 [args]]\<rparr>
      = Some (Resolved, \<lparr>ns = pinefile, trace = ?t3\<rparr>)"
    using post by (simp add: done_cb_trace del: execute.simps)
  ultimately show ?thesis
    by (intro exI [of _ "\<lparr>ns = pinefile, trace = ?t1 @ [LogStarting ''build'', Called f1 [args]]\<rparr>"]
        exI [of _ "\<lparr>ns = pinefile, trace = ?t3\<rparr>"]) (simp del: execute.simps)
qed

theorem build_runs_pre_main_post_in_order_witness:
  "runTask \<lparr>call_fn = (\<lambda>f as. Return JUndefined), call_with_done = (\<lambda>g. (NoDone, Return JUndefined))\<rparr>
       \<lparr>runner = JUndefined, options = JUndefined\<rparr> (Suc (Suc 0))
       [(''build'', JFun 1 1), (''prebuild'', JFun 2 1), (''postbuild'', JFun 3 1)]
       ''build'' (JObj [(''x'', JNum 1)])
     = Some (Resolved,
         \<lparr>ns = [(''build'', JFun 1 1), (''prebuild'', JFun 2 1), (''postbuild'', JFun 3 1)],
          trace = [LogStarting ''prebuild'', Called 2 [JObj [(''x'', JNum 1)]], LogFinished ''prebuild'',
                   LogStarting ''build'', Called 1 [JObj [(''x'', JNum 1)]], LogFinished ''build'',
                   LogStarting ''postbuild'', Called 3 [JObj [(''x'', JNum 1)]],
                   LogFinished ''postbuild'']\<rparr>)"
proof -
  let ?e = "\<lparr>call_fn = (\<lambda>f as. Return JUndefined), call_with_done = (\<lambda>g. (NoDone, Return JUndefined))\<rparr>"
  let ?cfg = "\<lparr>runner = JUndefined, options = JUndefined\<rparr>"
  have c: "typeof (runner ?cfg) \<noteq> ''function''"
    "\<not> (isObject (runner ?cfg) \<and> typeof (get_prop (runner ?cfg) ''default'') = ''function'')"
    by simp_all
  have n: "(1::nat) \<noteq> 3" "(1::nat) \<noteq> 4" by simp_all
  obtain st1 st' where r: "runTask ?e ?cfg (Suc (Suc 0))
        [(''build'', JFun 1 1), (''prebuild'', JFun 2 1), (''postbuild'', JFun 3 1)]
        ''build'' (JObj [(''x'', JNum 1)]) = Some (Resolved, st')"
    and "ns st' = [(''build'', JFun 1 1), (''prebuild'', JFun 2 1), (''postbuild'', JFun 3 1)]"
    and "trace st' =
         [LogStarting ''prebuild'', Called 2 [JObj [(''x'', JNum 1)]]]
         @ logged (caught (call_fn ?e 2 [JObj [(''x'', JNum 1)]])) @
         [LogFinished ''prebuild'', LogStarting ''build'', Called 1 [JObj [(''x'', JNum 1)]]] @
         logged (caught (call_fn ?e 1 [JObj [(''x'', JNum 1)]])) @
         [LogFinished ''build'', LogStarting ''postbuild'', Called 3 [JObj [(''x'', JNum 1)]]] @
         logged (caught (call_fn ?e 3 [JObj [(''x'', JNum 1)]])) @
         [LogFinished ''postbuild'']"
    using build_runs_pre_main_post_in_order
      [OF c n n n refl refl, where ?f1.0 = 1 and ?f2.0 = 2 and ?f3.0 = 3 and e = ?e and k = 0]
    by blast
  then show ?thesis by (cases st') (simp add: logged_def)
qed

text \<open>
  The claim as stated fails in its last part: the completion callback of the main task does not
  complete before the post-hook starts. Lines 212-217 are part of the callback; called after
  \<^verbatim>\<open>build\<close> has returned, the callback completes with the events of \<^verbatim>\<open>postbuild\<close> behind it.
\<close>

theorem completion_callback_awaits_post_hook_counterexample:
  "done_cb (execute \<lparr>call_fn = (\<lambda>f as. Return JUndefined), call_with_done = (\<lambda>g. (NoDone, Return JUndefined))\<rparr>
              \<lparr>runner = JUndefined, options = JUndefined\<rparr> (Suc 0))
       ''build'' ''build'' (JObj [(''x'', JNum 1)]) None
       \<lparr>ns = [(''build'', JFun 1 1), (''prebuild'', JFun 2 1), (''postbuild'', JFun 3 1)],
        trace = [LogStarting ''prebuild'', Called 2 [JObj [(''x'', JNum 1)]], LogFinished ''prebuild'',
                 LogStarting ''build'', Called 1 [JObj [(''x'', JNum 1)]]]\<rparr>
     = Some (Resolved,
         \<lparr>ns = [(''build'', JFun 1 1), (''prebuild'', JFun 2 1), (''postbuild'', JFun 3 1)],
          trace = [LogStarting ''prebuild'', Called 2 [JObj [(''x'', JNum 1)]], LogFinished ''prebuild'',
                   LogStarting ''build'', Called 1 [JObj [(''x'', JNum 1)]], LogFinished ''build'',
                   LogStarting ''postbuild'', Called 3 [JObj [(''x'', JNum 1)]],
                   LogFinished ''postbuild'']\<rparr>)"
  by (simp add: engine_defs)

end
